theory Spec2Isabelle
  imports Main
begin

unbundle bit_operations_syntax

section \<open>Faults\<close>

text \<open>
  The three modules are C code that manipulates heap nodes through pointers.  Where the
  source would dereference a null pointer, read a freed node or block, run a string
  function over a buffer without terminator, write behind the end of a block, or leave
  the range of \<^verbatim>\<open>int\<close> with a length, the model returns the fault as a value.
\<close>

datatype fault =
  Null_Deref | Use_After_Free | Over_Read | Exit_Failure | Heap_Overflow | Int_Overflow

section \<open>Program store\<close>

text \<open>
  Modelled from the spec: \<^verbatim>\<open>STMT\<close> is declared in \<^verbatim>\<open>mush.h\<close>, which is not among the
  sources.  A statement is an opaque object with a line number; the store reads only
  its \<^verbatim>\<open>lineno\<close> field, the rest of the statement is carried along as \<open>body\<close>.
\<close>

datatype STMT = Stmt (lineno: int) (body: string)

text \<open>
  A \<^verbatim>\<open>PROG_LINE *\<close> is \<^verbatim>\<open>NULL\<close>, the address of the dummy head, or the address of a
  node obtained from \<^verbatim>\<open>malloc\<close>.  The circular doubly linked list hanging off the head
  is kept as the sequence of its nodes in \<^verbatim>\<open>next\<close> order, every node with its address
  and its \<^verbatim>\<open>content\<close>; the successor of the last node is the head.
\<close>

datatype line_ptr = Null | Head | Line nat

record PROG_STORE =
  nodes :: "(nat \<times> STMT) list"
  counter :: line_ptr

text \<open>The global \<^verbatim>\<open>pstorage\<close>: \<open>None\<close> is \<^verbatim>\<open>NULL\<close>.\<close>

type_synonym pstorage = "PROG_STORE option"

text \<open>The pointer stored in the \<^verbatim>\<open>next\<close> field in front of the remaining nodes.\<close>

fun first_ptr :: "(nat \<times> STMT) list \<Rightarrow> line_ptr" where
  "first_ptr [] = Head"
| "first_ptr ((a, s) # ls) = Line a"

text \<open>
  \<^verbatim>\<open>p->content\<close>: the head's content is \<^verbatim>\<open>NULL\<close>, a null pointer cannot be
  dereferenced, and a node that is no longer in the list has been freed.
\<close>

fun content :: "(nat \<times> STMT) list \<Rightarrow> line_ptr \<Rightarrow> fault + STMT option" where
  "content ls Null = Inl Null_Deref"
| "content ls Head = Inr None"
| "content ls (Line a) =
     (case map_of ls a of None \<Rightarrow> Inl Use_After_Free | Some s \<Rightarrow> Inr (Some s))"

text \<open>
  The loop of \<^verbatim>\<open>prog_insert\<close> and the linking that follows it; \<open>a\<close> is the address
  \<^verbatim>\<open>malloc\<close> returns for the new node, used only when no line is replaced.
\<close>

fun insert_line :: "nat \<Rightarrow> STMT \<Rightarrow> (nat \<times> STMT) list \<Rightarrow> (nat \<times> STMT) list" where
  "insert_line a stmt [] = [(a, stmt)]"
| "insert_line a stmt ((b, t) # ls) =
     (if lineno t = lineno stmt then (b, stmt) # ls
      else if lineno t > lineno stmt then (a, stmt) # (b, t) # ls
      else (b, t) # insert_line a stmt ls)"

definition prog_insert :: "nat \<Rightarrow> STMT \<Rightarrow> pstorage \<Rightarrow> int \<times> pstorage" where
  "prog_insert a stmt ps =
     (let st = (case ps of None \<Rightarrow> \<lparr>nodes = [], counter = Null\<rparr> | Some st \<Rightarrow> st)
      in if lineno stmt \<le> 0 then (-1, Some st)
         else (0, Some (st\<lparr>nodes := insert_line a stmt (nodes st)\<rparr>)))"

text \<open>
  The loop of \<^verbatim>\<open>prog_delete\<close>, started at the remaining nodes with the current value
  of the counter; it returns the surviving nodes and the counter.
\<close>

fun delete_lines :: "int \<Rightarrow> int \<Rightarrow> (nat \<times> STMT) list \<Rightarrow> line_ptr
    \<Rightarrow> (nat \<times> STMT) list \<times> line_ptr" where
  "delete_lines mn mx [] c = ([], c)"
| "delete_lines mn mx ((a, s) # ls) c =
     (if lineno s \<ge> mn \<and> lineno s \<le> mx
      then delete_lines mn mx ls (if Line a = c then first_ptr ls else c)
      else (case delete_lines mn mx ls c of (ls', c') \<Rightarrow> ((a, s) # ls', c')))"

definition prog_delete :: "int \<Rightarrow> int \<Rightarrow> pstorage \<Rightarrow> int \<times> pstorage" where
  "prog_delete mn mx ps =
     (if mn \<le> 0 \<or> mx \<le> 0 \<or> mx < mn then (-1, ps)
      else case ps of
        None \<Rightarrow> (0, None)
      | Some st \<Rightarrow>
          (case delete_lines mn mx (nodes st) (counter st) of
             (ls', c') \<Rightarrow> (0, Some \<lparr>nodes = ls', counter = c'\<rparr>)))"

definition prog_reset :: "pstorage \<Rightarrow> pstorage" where
  "prog_reset ps =
     (case ps of None \<Rightarrow> None
      | Some st \<Rightarrow> Some (st\<lparr>counter := first_ptr (nodes st)\<rparr>))"

text \<open>\<^verbatim>\<open>prog_fetch\<close> returns the statement (or \<^verbatim>\<open>NULL\<close>) and leaves the store as it is.\<close>

definition prog_fetch :: "pstorage \<Rightarrow> fault + STMT option" where
  "prog_fetch ps =
     (case ps of None \<Rightarrow> Inr None
      | Some st \<Rightarrow> content (nodes st) (counter st))"

text \<open>\<^verbatim>\<open>p->next\<close> for a pointer into the list.\<close>

fun next_ptr :: "(nat \<times> STMT) list \<Rightarrow> nat \<Rightarrow> fault + line_ptr" where
  "next_ptr [] a = Inl Use_After_Free"
| "next_ptr ((b, t) # ls) a = (if b = a then Inr (first_ptr ls) else next_ptr ls a)"

definition prog_next :: "pstorage \<Rightarrow> fault + (STMT option \<times> pstorage)" where
  "prog_next ps =
     (case ps of None \<Rightarrow> Inr (None, None)
      | Some st \<Rightarrow>
          (case counter st of
             Null \<Rightarrow> Inr (None, Some st)
           | Head \<Rightarrow> Inr (None, Some st)
           | Line a \<Rightarrow>
               (case next_ptr (nodes st) a of
                  Inl f \<Rightarrow> Inl f
                | Inr p \<Rightarrow>
                    (case content (nodes st) p of
                       Inl f \<Rightarrow> Inl f
                     | Inr r \<Rightarrow> Inr (r, Some (st\<lparr>counter := p\<rparr>))))))"

text \<open>The loop of \<^verbatim>\<open>prog_goto\<close>: the first node with the line number, if any.\<close>

fun goto_line :: "int \<Rightarrow> (nat \<times> STMT) list \<Rightarrow> (nat \<times> STMT) option" where
  "goto_line n [] = None"
| "goto_line n ((a, s) # ls) = (if lineno s = n then Some (a, s) else goto_line n ls)"

definition prog_goto :: "int \<Rightarrow> pstorage \<Rightarrow> fault + (STMT option \<times> pstorage)" where
  "prog_goto n ps =
     (case ps of None \<Rightarrow> Inl Null_Deref
      | Some st \<Rightarrow>
          (case goto_line n (nodes st) of
             None \<Rightarrow> Inr (None, Some st)
           | Some (a, s) \<Rightarrow> Inr (Some s, Some (st\<lparr>counter := Line a\<rparr>))))"

text \<open>
  \<^verbatim>\<open>prog_list\<close>: the listing as a sequence of items, the marker \<^verbatim>\<open>-->\<close> or a statement
  handed to \<^verbatim>\<open>show_stmt\<close>.
\<close>

datatype list_item = Marker | Shown STMT

fun list_lines :: "line_ptr \<Rightarrow> (nat \<times> STMT) list \<Rightarrow> list_item list" where
  "list_lines c [] = (if c = Head then [Marker] else [])"
| "list_lines c ((a, s) # ls) =
     (if c = Line a then [Marker] else []) @ Shown s # list_lines c ls"

definition prog_list :: "pstorage \<Rightarrow> int \<times> list_item list" where
  "prog_list ps =
     (case ps of None \<Rightarrow> (0, [])
      | Some st \<Rightarrow> (0, list_lines (counter st) (nodes st)))"

text \<open>
  The shape every store built by the functions above has: node addresses are pairwise
  distinct, line numbers increase strictly along the list, and the counter is null, the
  head, or the address of a node of the list.
\<close>

definition wf_store :: "PROG_STORE \<Rightarrow> bool" where
  "wf_store st =
     (distinct (map fst (nodes st)) \<and>
      sorted_wrt (<) (map (\<lambda>p. lineno (snd p)) (nodes st)) \<and>
      (case counter st of Line a \<Rightarrow> a \<in> set (map fst (nodes st)) | _ \<Rightarrow> True))"

definition wf_pstorage :: "pstorage \<Rightarrow> bool" where
  "wf_pstorage ps = (case ps of None \<Rightarrow> True | Some st \<Rightarrow> wf_store st)"

text \<open>The line numbers of the stored lines, in list order.\<close>

definition line_numbers :: "pstorage \<Rightarrow> int list" where
  "line_numbers ps =
     (case ps of None \<Rightarrow> [] | Some st \<Rightarrow> map (\<lambda>p. lineno (snd p)) (nodes st))"

text \<open>The line number the counter designates, if it designates a line.\<close>

definition designated :: "pstorage \<Rightarrow> int option" where
  "designated ps =
     (case ps of
        None \<Rightarrow> None
      | Some st \<Rightarrow>
          (case counter st of
             Line a \<Rightarrow> map_option lineno (map_of (nodes st) a)
           | _ \<Rightarrow> None))"

text \<open>The counter is at end when it points to the dummy head.\<close>

definition at_end :: "pstorage \<Rightarrow> bool" where
  "at_end ps = (case ps of None \<Rightarrow> False | Some st \<Rightarrow> counter st = Head)"

text \<open>The address \<^verbatim>\<open>malloc\<close> returns is not the address of a node in use.\<close>

definition fresh :: "nat \<Rightarrow> pstorage \<Rightarrow> bool" where
  "fresh a ps = (case ps of None \<Rightarrow> True | Some st \<Rightarrow> a \<notin> set (map fst (nodes st)))"

text \<open>
  The stores the module can be in: it starts with the null \<^verbatim>\<open>pstorage\<close>, and each call
  leads from one store to the next; \<^verbatim>\<open>prog_insert\<close> gets its node from \<^verbatim>\<open>malloc\<close>.
\<close>

inductive reachable :: "pstorage \<Rightarrow> bool" where
  start: "reachable None"
| after_insert: "reachable ps \<Longrightarrow> fresh a ps \<Longrightarrow> reachable (snd (prog_insert a stmt ps))"
| after_delete: "reachable ps \<Longrightarrow> reachable (snd (prog_delete mn mx ps))"
| after_reset: "reachable ps \<Longrightarrow> reachable (prog_reset ps)"
| after_next: "reachable ps \<Longrightarrow> prog_next ps = Inr (r, ps') \<Longrightarrow> reachable ps'"
| after_goto: "reachable ps \<Longrightarrow> prog_goto n ps = Inr (r, ps') \<Longrightarrow> reachable ps'"

section \<open>Variable store\<close>

text \<open>
  A \<^verbatim>\<open>char *\<close> holding a C string is the list of its characters in front of the
  terminator; \<open>None\<close> is \<^verbatim>\<open>NULL\<close>.  The list of \<^verbatim>\<open>VAR_NODE\<close>s hanging off the dummy
  head is the sequence of pairs (\<^verbatim>\<open>var_name\<close>, \<^verbatim>\<open>var_value\<close>) in \<^verbatim>\<open>next\<close> order, and
  the global \<^verbatim>\<open>vstorage\<close> is \<open>None\<close> while it is \<^verbatim>\<open>NULL\<close>.
\<close>

type_synonym VAR_STORE = "(string \<times> string option) list"

type_synonym vstorage = "VAR_STORE option"

text \<open>
  A \<^verbatim>\<open>char *\<close> that a caller passes as the value and that is not \<^verbatim>\<open>NULL\<close> by itself:
  \<open>Caller s\<close> points to a string \<open>s\<close> in memory of the caller, \<open>Lent m\<close> is the pointer
  \<^verbatim>\<open>store_get_string\<close> returns for the variable \<open>m\<close> at the time of the call, that is,
  the \<^verbatim>\<open>var_value\<close> of its node (\<^verbatim>\<open>NULL\<close> when the variable has no value).
\<close>

datatype char_ptr = Caller string | Lent string

subsection \<open>The C library functions the module calls\<close>

text \<open>\<^verbatim>\<open>int\<close> has 32 bits, \<^verbatim>\<open>long\<close> has 64 bits.\<close>

definition INT_MAX :: int where
  "INT_MAX = 2 ^ 31 - 1"

definition LONG_MAX :: int where
  "LONG_MAX = 2 ^ 63 - 1"

definition LONG_MIN :: int where
  "LONG_MIN = - (2 ^ 63)"

text \<open>Negation of a \<^verbatim>\<open>long\<close> as the machine computes it: \<^verbatim>\<open>-LONG_MIN\<close> is \<^verbatim>\<open>LONG_MIN\<close>.\<close>

definition wrap_long :: "int \<Rightarrow> int" where
  "wrap_long x = (x + 2 ^ 63) mod 2 ^ 64 - 2 ^ 63"

text \<open>Division of C integers truncates towards zero.\<close>

definition c_div :: "int \<Rightarrow> int \<Rightarrow> int" where
  "c_div a b = sgn a * sgn b * (\<bar>a\<bar> div \<bar>b\<bar>)"

text \<open>\<^verbatim>\<open>isspace\<close> and \<^verbatim>\<open>isdigit\<close> in the C locale.\<close>

definition isspace :: "char \<Rightarrow> bool" where
  "isspace c = (c = CHR 0x20 \<or> c = CHR 0x09 \<or> c = CHR 0x0A \<or> c = CHR 0x0B
                \<or> c = CHR 0x0C \<or> c = CHR 0x0D)"

definition isdigit :: "char \<Rightarrow> bool" where
  "isdigit c = (48 \<le> (of_char c :: nat) \<and> (of_char c :: nat) \<le> 57)"

definition digit_val :: "char \<Rightarrow> int" where
  "digit_val c = int (of_char c) - 48"

definition clamp_long :: "int \<Rightarrow> int" where
  "clamp_long x = (if x > LONG_MAX then LONG_MAX else if x < LONG_MIN then LONG_MIN else x)"

text \<open>
  \<^verbatim>\<open>strtol(s, &end_ptr, 10)\<close>: skips white space, takes one optional sign, then the
  longest run of decimal digits; the value is clamped to the range of \<^verbatim>\<open>long\<close>.  The
  second component is the string \<^verbatim>\<open>end_ptr\<close> points to, which is \<open>s\<close> itself when there
  is no digit to convert.
\<close>

definition strtol :: "string \<Rightarrow> int \<times> string" where
  "strtol s =
     (let s1 = dropWhile isspace s;
          neg = (case s1 of [] \<Rightarrow> False | c # r \<Rightarrow> c = CHR ''-'');
          s2 = (case s1 of [] \<Rightarrow> []
                | c # r \<Rightarrow> if c = CHR ''-'' \<or> c = CHR ''+'' then r else s1);
          ds = takeWhile isdigit s2
      in if ds = [] then (0, s)
         else (clamp_long ((if neg then - 1 else 1) *
                 foldl (\<lambda>acc c. 10 * acc + digit_val c) 0 ds),
               dropWhile isdigit s2))"

text \<open>The text \<^verbatim>\<open>sprintf\<close> produces for \<^verbatim>\<open>%ld\<close>.\<close>

definition digit_char :: "nat \<Rightarrow> char" where
  "digit_char d = char_of (48 + d)"

fun digits :: "nat \<Rightarrow> string" where
  "digits n = (if n < 10 then [digit_char n] else digits (n div 10) @ [digit_char (n mod 10)])"

declare digits.simps [simp del]

definition show_long :: "int \<Rightarrow> string" where
  "show_long k = (if k < 0 then CHR ''-'' # digits (nat (- k)) else digits (nat k))"

text \<open>
  \<^verbatim>\<open>sprintf(valcpy, "%ld%c", val, '\0')\<close> into a block of \<open>room\<close> bytes.  It writes the
  sign and the digits, the NUL printed by \<^verbatim>\<open>%c\<close>, and then its own terminator; the
  value it returns counts the characters in front of that terminator.  When the block
  is too small for all the bytes written, the write runs behind its end.  Otherwise
  the result is the returned count and the C string left in \<^verbatim>\<open>valcpy\<close>.
\<close>

definition sprintf_ld_c :: "int \<Rightarrow> int \<Rightarrow> fault + (int \<times> string)" where
  "sprintf_ld_c room val =
     (let digs = show_long val;
          written = int (length digs) + 1
      in if written + 1 > room then Inl Heap_Overflow else Inr (written, digs))"

text \<open>
  \<^verbatim>\<open>len = strlen(s) + 1; cpy = malloc(len); strncpy(cpy, s, len)\<close> with \<^verbatim>\<open>int len\<close>: the
  copy of a string.  When the length with the terminator does not fit \<^verbatim>\<open>int\<close>, \<^verbatim>\<open>len\<close>
  is negative or smaller than the string, and what \<^verbatim>\<open>malloc\<close> and \<^verbatim>\<open>strncpy\<close> then
  produce is not a copy of the string; the model stops there.
\<close>

definition copy_string :: "string \<Rightarrow> fault + string" where
  "copy_string s = (if int (length s) + 1 > INT_MAX then Inl Int_Overflow else Inr s)"

subsection \<open>The module\<close>

fun get_string_loop :: "string \<Rightarrow> VAR_STORE \<Rightarrow> string option" where
  "get_string_loop var [] = None"
| "get_string_loop var ((n, v) # ls) = (if var = n then v else get_string_loop var ls)"

definition store_get_string :: "string \<Rightarrow> vstorage \<Rightarrow> string option" where
  "store_get_string var vs =
     (case vs of None \<Rightarrow> None | Some ls \<Rightarrow> get_string_loop var ls)"

text \<open>
  \<^verbatim>\<open>store_get_int\<close>: \<open>None\<close> is the return value -1, \<open>Some k\<close> the return value 0 with
  \<open>k\<close> stored through \<^verbatim>\<open>valp\<close>.
\<close>

fun get_int_loop :: "string \<Rightarrow> VAR_STORE \<Rightarrow> int option" where
  "get_int_loop var [] = None"
| "get_int_loop var ((n, v) # ls) =
     (if var = n then
        (case v of
           None \<Rightarrow> None
         | Some s \<Rightarrow>
             if s = [] then None
             else (case strtol s of
                     (result, end_ptr) \<Rightarrow> if end_ptr = [] then Some result else None))
      else get_int_loop var ls)"

definition store_get_int :: "string \<Rightarrow> vstorage \<Rightarrow> int option" where
  "store_get_int var vs =
     (case vs of None \<Rightarrow> None | Some ls \<Rightarrow> get_int_loop var ls)"

text \<open>
  The string behind the \<^verbatim>\<open>val\<close> argument, \<open>None\<close> when the pointer is \<^verbatim>\<open>NULL\<close>; \<open>ls\<close>
  are the nodes of the store when the call is made.
\<close>

definition pointee :: "char_ptr option \<Rightarrow> VAR_STORE \<Rightarrow> string option" where
  "pointee val ls =
     (case val of
        None \<Rightarrow> None
      | Some (Caller s) \<Rightarrow> Some s
      | Some (Lent m) \<Rightarrow> get_string_loop m ls)"

text \<open>
  The loop of \<^verbatim>\<open>store_set_string\<close> over the remaining nodes, and the insertion behind
  it; \<open>ls\<close> are all nodes of the store.  At the node with the name, the old value is
  freed first, then \<^verbatim>\<open>val\<close> is tested and read: when \<^verbatim>\<open>val\<close> is that old value, a
  freed block is read.  Without such a node, the name and the value are copied and a
  new node is linked in front of the head, that is, at the end.
\<close>

fun set_string_loop ::
    "string \<Rightarrow> char_ptr option \<Rightarrow> VAR_STORE \<Rightarrow> VAR_STORE \<Rightarrow> fault + VAR_STORE" where
  "set_string_loop var val ls [] =
     (case copy_string var of
        Inl f \<Rightarrow> Inl f
      | Inr varcpy \<Rightarrow>
          (case pointee val ls of
             None \<Rightarrow> Inr [(varcpy, None)]
           | Some s \<Rightarrow>
               (case copy_string s of
                  Inl f \<Rightarrow> Inl f
                | Inr valcpy \<Rightarrow> Inr [(varcpy, Some valcpy)])))"
| "set_string_loop var val ls ((n, v) # rest) =
     (if var = n then
        (case pointee val ls of
           None \<Rightarrow> Inr ((n, None) # rest)
         | Some s \<Rightarrow>
             if v \<noteq> None \<and> val = Some (Lent n) then Inl Use_After_Free
             else (case copy_string s of
                     Inl f \<Rightarrow> Inl f
                   | Inr valcpy \<Rightarrow> Inr ((n, Some valcpy) # rest)))
      else (case set_string_loop var val ls rest of
              Inl f \<Rightarrow> Inl f
            | Inr rest' \<Rightarrow> Inr ((n, v) # rest')))"

definition store_set_string ::
    "string option \<Rightarrow> char_ptr option \<Rightarrow> vstorage \<Rightarrow> fault + (int \<times> vstorage)" where
  "store_set_string var val vs =
     (case var of
        None \<Rightarrow> Inr (-1, vs)
      | Some n \<Rightarrow>
          (let ls = (case vs of None \<Rightarrow> [] | Some ls \<Rightarrow> ls)
           in case set_string_loop n val ls ls of
                Inl f \<Rightarrow> Inl f
              | Inr ls' \<Rightarrow> Inr (0, Some ls')))"

text \<open>The \<^verbatim>\<open>while(tempval != 0)\<close> loop that counts the digits.\<close>

function count_loop :: "int \<Rightarrow> int \<Rightarrow> int" where
  "count_loop tempval len =
     (if tempval \<noteq> 0 then count_loop (c_div tempval 10) (len + 1) else len)"
  by pat_completeness auto
termination
  by (relation "measure (\<lambda>(tempval, len). nat \<bar>tempval\<bar>)")
     (auto simp: c_div_def abs_mult)

declare count_loop.simps [simp del]

text \<open>The length computed for \<^verbatim>\<open>valcpy\<close>, with the final \<^verbatim>\<open>len++\<close> for the terminator.\<close>

definition value_len :: "int \<Rightarrow> int" where
  "value_len val =
     (if val = 0 then count_loop val 1
      else if val < 0 then count_loop (wrap_long (- val)) 1
      else count_loop val 0) + 1"

text \<open>
  What both branches of \<^verbatim>\<open>store_set_int\<close> do with the value: the block for the text
  has \<^verbatim>\<open>len\<close> bytes, \<^verbatim>\<open>sprintf\<close> writes into it, and its return value is compared with
  \<^verbatim>\<open>len\<close>; \<open>None\<close> stands for the \<^verbatim>\<open>return -1\<close> of a mismatch.
\<close>

definition format_value :: "int \<Rightarrow> fault + string option" where
  "format_value val =
     (let len = value_len val
      in case sprintf_ld_c len val of
           Inl f \<Rightarrow> Inl f
         | Inr (written, valcpy) \<Rightarrow> if written \<noteq> len then Inr None else Inr (Some valcpy))"

text \<open>
  The loop of \<^verbatim>\<open>store_set_int\<close> over the remaining nodes, and the insertion behind
  it.  On a mismatch the function returns -1 without storing the text (in the branch
  that found the name, the old value has been freed by then).
\<close>

fun set_int_loop :: "string \<Rightarrow> int \<Rightarrow> VAR_STORE \<Rightarrow> fault + (int \<times> VAR_STORE)" where
  "set_int_loop var val [] =
     (case copy_string var of
        Inl f \<Rightarrow> Inl f
      | Inr varcpy \<Rightarrow>
          (case format_value val of
             Inl f \<Rightarrow> Inl f
           | Inr None \<Rightarrow> Inr (-1, [])
           | Inr (Some valcpy) \<Rightarrow> Inr (0, [(varcpy, Some valcpy)])))"
| "set_int_loop var val ((n, v) # rest) =
     (if var = n then
        (case format_value val of
           Inl f \<Rightarrow> Inl f
         | Inr None \<Rightarrow> Inr (-1, (n, v) # rest)
         | Inr (Some valcpy) \<Rightarrow> Inr (0, (n, Some valcpy) # rest))
      else (case set_int_loop var val rest of
              Inl f \<Rightarrow> Inl f
            | Inr (rc, rest') \<Rightarrow> Inr (rc, (n, v) # rest')))"

definition store_set_int :: "string option \<Rightarrow> int \<Rightarrow> vstorage \<Rightarrow> fault + (int \<times> vstorage)" where
  "store_set_int var val vs =
     (case var of
        None \<Rightarrow> Inr (-1, vs)
      | Some n \<Rightarrow>
          (let ls = (case vs of None \<Rightarrow> [] | Some ls \<Rightarrow> ls)
           in case set_int_loop n val ls of
                Inl f \<Rightarrow> Inl f
              | Inr (rc, ls') \<Rightarrow> Inr (rc, Some ls')))"

text \<open>
  The texts \<^verbatim>\<open>strtol\<close> consumes entirely: white space, then at most one sign, then one or
  more decimal digits, and nothing else.
\<close>

definition int_text :: "string \<Rightarrow> bool" where
  "int_text v =
     (let r = dropWhile isspace v;
          d = (if r \<noteq> [] \<and> (hd r = CHR ''-'' \<or> hd r = CHR ''+'') then tl r else r)
      in d \<noteq> [] \<and> list_all isdigit d)"

section \<open>Jobs\<close>

text \<open>
  Modelled from the spec: \<^verbatim>\<open>PIPELINE\<close> is declared in \<^verbatim>\<open>mush.h\<close>, which is not among
  the sources.  A pipeline is a list of commands, each a list of arguments, with an
  optional input file, an optional output file and the capture flag; the functions
  below only store the pointer to it.
\<close>

datatype PIPELINE = Pipeline (commands: "string list list") (input_file: "string option")
  (output_file: "string option") (capture_output: bool)

text \<open>
  A \<^verbatim>\<open>JOB_NODE\<close>.  \<^verbatim>\<open>status\<close> points to one of the string literals \<^verbatim>\<open>"new"\<close>,
  \<^verbatim>\<open>"running"\<close>, \<^verbatim>\<open>"completed"\<close>, \<^verbatim>\<open>"aborted"\<close>, \<^verbatim>\<open>"canceled"\<close>.  \<^verbatim>\<open>job_output\<close> is
  \<^verbatim>\<open>NULL\<close> or a block from \<^verbatim>\<open>malloc\<close>, kept as the bytes of the block: the block need
  not hold a terminator.
\<close>

record JOB_NODE =
  job_id :: int
  pgid :: int
  status :: string
  exit_status :: int
  readfd :: int
  pipeline :: "PIPELINE option"
  job_output :: "char list option"

text \<open>
  The global \<^verbatim>\<open>jtable\<close>: \<open>None\<close> while it is \<^verbatim>\<open>NULL\<close>, otherwise the nodes hanging off
  the dummy head in \<^verbatim>\<open>next\<close> order.
\<close>

type_synonym jtable = "JOB_NODE list option"

subsection \<open>What the module takes from the operating system and the C library\<close>

text \<open>
  The outcome of the system calls is not decided by the module: \<open>kill_ok p\<close> says that
  \<^verbatim>\<open>kill(-p, SIGKILL)\<close> does not fail, \<open>close_ok fd\<close> that \<^verbatim>\<open>close(fd)\<close> does not.
\<close>

record os =
  kill_ok :: "int \<Rightarrow> bool"
  close_ok :: "int \<Rightarrow> bool"

definition EXIT_SUCCESS :: int where
  "EXIT_SUCCESS = 0"

definition SIGKILL :: int where
  "SIGKILL = 9"

text \<open>The macros of \<^verbatim>\<open><wait.h>\<close> on Linux, over the raw wait status.\<close>

definition WEXITSTATUS :: "int \<Rightarrow> int" where
  "WEXITSTATUS s = drop_bit 8 (s AND 0xff00)"

definition WTERMSIG :: "int \<Rightarrow> int" where
  "WTERMSIG s = s AND 0x7f"

definition WIFEXITED :: "int \<Rightarrow> bool" where
  "WIFEXITED s = (WTERMSIG s = 0)"

text \<open>\<^verbatim>\<open>((signed char) ((s & 0x7f) + 1) >> 1) > 0\<close>\<close>

definition WIFSIGNALED :: "int \<Rightarrow> bool" where
  "WIFSIGNALED s =
     (let t = (s AND 0x7f) + 1; sc = (if t \<ge> 128 then t - 256 else t)
      in drop_bit 1 sc > 0)"

definition WIFSTOPPED :: "int \<Rightarrow> bool" where
  "WIFSTOPPED s = (s AND 0xff = 0x7f)"

definition NUL :: char where
  "NUL = CHR 0x00"

text \<open>
  \<^verbatim>\<open>strlen\<close> over a block: without a NUL in the block the scan leaves it.
\<close>

definition strlen :: "char list \<Rightarrow> fault + nat" where
  "strlen b =
     (if NUL \<in> set b then Inr (length (takeWhile (\<lambda>c. c \<noteq> NUL) b)) else Inl Over_Read)"

text \<open>
  The string a \<^verbatim>\<open>char *\<close> to the block stands for, as the caller reads it: the bytes in
  front of the first NUL.
\<close>

definition c_string :: "char list \<Rightarrow> fault + string" where
  "c_string b =
     (if NUL \<in> set b then Inr (takeWhile (\<lambda>c. c \<noteq> NUL) b) else Inl Over_Read)"

text \<open>
  \<^verbatim>\<open>strncpy(dest, src, n)\<close> for a terminated \<open>src\<close>: the \<open>n\<close> bytes written to \<open>dest\<close>,
  the characters of \<open>src\<close> in front of its first NUL, cut after \<open>n\<close> or padded with
  NUL up to \<open>n\<close>.
\<close>

definition strncpy :: "char list \<Rightarrow> nat \<Rightarrow> char list" where
  "strncpy src n =
     (let s = take n (takeWhile (\<lambda>c. c \<noteq> NUL) src)
      in s @ replicate (n - length s) NUL)"

subsection \<open>The module\<close>

fun change_loop :: "int \<Rightarrow> string \<Rightarrow> int \<Rightarrow> JOB_NODE list \<Rightarrow> int \<times> JOB_NODE list" where
  "change_loop pid st es [] = (-1, [])"
| "change_loop pid st es (j # js) =
     (if pgid j = pid then (0, j\<lparr>status := st, exit_status := es\<rparr> # js)
      else (case change_loop pid st es js of (rc, js') \<Rightarrow> (rc, j # js')))"

definition change_job_status :: "int \<Rightarrow> string \<Rightarrow> int \<Rightarrow> jtable \<Rightarrow> int \<times> jtable" where
  "change_job_status pid st es jt =
     (case jt of
        None \<Rightarrow> (-1, None)
      | Some js \<Rightarrow> (case change_loop pid st es js of (rc, js') \<Rightarrow> (rc, Some js')))"

text \<open>
  \<^verbatim>\<open>child_handler\<close>, from the point where \<^verbatim>\<open>waitpid\<close> has returned: \<open>pid\<close> is its
  return value and \<open>chstatus\<close> the wait status it stored.
\<close>

definition child_handler :: "int \<Rightarrow> int \<Rightarrow> jtable \<Rightarrow> jtable" where
  "child_handler pid chstatus jt =
     (if pid > 0 then
        if WIFSTOPPED chstatus \<or> WIFSIGNALED chstatus \<or> WIFEXITED chstatus then
          if WEXITSTATUS chstatus = EXIT_SUCCESS
            then snd (change_job_status pid ''completed'' chstatus jt)
          else if WEXITSTATUS chstatus = SIGKILL
            then snd (change_job_status pid ''canceled'' chstatus jt)
          else snd (change_job_status pid ''aborted'' chstatus jt)
        else jt
      else jt)"

text \<open>
  \<^verbatim>\<open>read_output_capture\<close>; \<open>bs\<close> are the bytes the calls of \<^verbatim>\<open>read\<close> deliver before
  one of them returns nothing.  The stream keeps them, followed by a NUL, in \<^verbatim>\<open>buf\<close>.
  After \<^verbatim>\<open>strcat\<close> the block holds the old string, the new one and the terminator; the
  bytes behind the terminator are not kept.
\<close>

definition read_output_capture :: "char list \<Rightarrow> JOB_NODE \<Rightarrow> fault + (int \<times> JOB_NODE)" where
  "read_output_capture bs job =
     (if readfd job = -1 then Inr (-1, job)
      else
        (let len = length bs;
             buf = bs @ [NUL];
             result = strncpy buf len
         in if len > 0 then
              (case job_output job of
                 Some out \<Rightarrow>
                   (case strlen out of
                      Inl f \<Rightarrow> Inl f
                    | Inr n \<Rightarrow>
                        (case strlen result of
                           Inl f \<Rightarrow> Inl f
                         | Inr m \<Rightarrow>
                             Inr (0, job\<lparr>job_output :=
                                         Some (take n out @ take m result @ [NUL])\<rparr>)))
               | None \<Rightarrow> Inr (0, job\<lparr>job_output := Some result\<rparr>))
            else Inr (0, job)))"

text \<open>\<^verbatim>\<open>io_handler\<close>; \<open>rd fd\<close> are the bytes waiting in the pipe behind \<open>fd\<close>.\<close>

fun io_loop :: "(int \<Rightarrow> char list) \<Rightarrow> JOB_NODE list \<Rightarrow> fault + JOB_NODE list" where
  "io_loop rd [] = Inr []"
| "io_loop rd (j # js) =
     (case read_output_capture (rd (readfd j)) j of
        Inl f \<Rightarrow> Inl f
      | Inr (rc, j') \<Rightarrow>
          (case io_loop rd js of Inl f \<Rightarrow> Inl f | Inr js' \<Rightarrow> Inr (j' # js')))"

definition io_handler :: "(int \<Rightarrow> char list) \<Rightarrow> jtable \<Rightarrow> fault + jtable" where
  "io_handler rd jt =
     (case jt of
        None \<Rightarrow> Inl Null_Deref
      | Some js \<Rightarrow> (case io_loop rd js of Inl f \<Rightarrow> Inl f | Inr js' \<Rightarrow> Inr (Some js')))"

text \<open>The first node with the job ID, as the search loops find it.\<close>

fun find_job :: "int \<Rightarrow> JOB_NODE list \<Rightarrow> JOB_NODE option" where
  "find_job jobid [] = None"
| "find_job jobid (j # js) = (if job_id j = jobid then Some j else find_job jobid js)"

definition terminated :: "string \<Rightarrow> bool" where
  "terminated st = (st = ''completed'' \<or> st = ''aborted'' \<or> st = ''canceled'')"

fun poll_loop :: "int \<Rightarrow> JOB_NODE list \<Rightarrow> int" where
  "poll_loop jobid [] = -1"
| "poll_loop jobid (j # js) =
     (if job_id j = jobid then (if terminated (status j) then exit_status j else -1)
      else poll_loop jobid js)"

definition jobs_poll :: "int \<Rightarrow> jtable \<Rightarrow> int" where
  "jobs_poll jobid jt = (case jt of None \<Rightarrow> -1 | Some js \<Rightarrow> poll_loop jobid js)"

text \<open>
  The \<^verbatim>\<open>while(1)\<close> loop of \<^verbatim>\<open>jobs_wait\<close> on the node it has found.  It returns once the
  status is one of the three final ones.  \<^verbatim>\<open>sigsuspend\<close> returns when a handler has run;
  the handlers are separate steps here, so on a node that has not terminated the loop
  tests the same node again and never returns: the value \<open>None\<close>.
\<close>

partial_function (option) wait_loop :: "JOB_NODE \<Rightarrow> int option" where
  "wait_loop target =
     (if terminated (status target) then Some (exit_status target) else wait_loop target)"

definition jobs_wait :: "int \<Rightarrow> jtable \<Rightarrow> int option" where
  "jobs_wait jobid jt =
     (case jt of
        None \<Rightarrow> Some (-1)
      | Some js \<Rightarrow>
          (case find_job jobid js of None \<Rightarrow> Some (-1) | Some target \<Rightarrow> wait_loop target))"

fun unlink_job :: "int \<Rightarrow> JOB_NODE list \<Rightarrow> JOB_NODE list" where
  "unlink_job jobid [] = []"
| "unlink_job jobid (j # js) = (if job_id j = jobid then js else j # unlink_job jobid js)"

definition jobs_expunge :: "os \<Rightarrow> int \<Rightarrow> jtable \<Rightarrow> fault + (int \<times> jtable)" where
  "jobs_expunge sys jobid jt =
     (if jobs_poll jobid jt = -1 then Inr (-1, jt)
      else case jt of
        None \<Rightarrow> Inl Null_Deref
      | Some js \<Rightarrow>
          (case find_job jobid js of
             None \<Rightarrow> Inr (-1, jt)
           | Some target \<Rightarrow>
               if readfd target \<noteq> -1 \<and> \<not> close_ok sys (readfd target) then Inl Exit_Failure
               else Inr (0, Some (unlink_job jobid js))))"

text \<open>
  \<^verbatim>\<open>jobs_cancel\<close> returns 0 or -1; it writes nothing to the table, which is returned
  as it was.
\<close>

definition jobs_cancel :: "os \<Rightarrow> int \<Rightarrow> jtable \<Rightarrow> fault + (int \<times> jtable)" where
  "jobs_cancel sys jobid jt =
     (if jobs_poll jobid jt \<noteq> -1 then Inr (-1, jt)
      else case jt of
        None \<Rightarrow> Inl Null_Deref
      | Some js \<Rightarrow>
          (case find_job jobid js of
             None \<Rightarrow> Inr (-1, jt)
           | Some target \<Rightarrow>
               if \<not> kill_ok sys (pgid target) then Inr (-1, jt) else Inr (0, jt)))"

text \<open>
  \<^verbatim>\<open>jobs_fini\<close>.  The body of its loop runs for the first node only: it returns -1 when
  \<^verbatim>\<open>jobs_cancel\<close> or \<^verbatim>\<open>jobs_expunge\<close> does, and when \<^verbatim>\<open>jobs_expunge\<close> has returned 0 it
  has unlinked and freed \<^verbatim>\<open>current_job\<close>, the node whose \<^verbatim>\<open>next\<close> field the loop reads
  to go on.
\<close>

definition jobs_fini :: "os \<Rightarrow> jtable \<Rightarrow> fault + (int \<times> jtable)" where
  "jobs_fini sys jt =
     (case jt of
        None \<Rightarrow> Inr (-1, None)
      | Some [] \<Rightarrow> Inr (0, None)
      | Some (current_job # js) \<Rightarrow>
          (case (if jobs_poll (job_id current_job) jt < 0
                 then jobs_cancel sys (job_id current_job) jt else Inr (0, jt)) of
             Inl f \<Rightarrow> Inl f
           | Inr (rc, jt1) \<Rightarrow>
               if rc < 0 then Inr (-1, jt1)
               else (case jobs_expunge sys (job_id current_job) jt1 of
                       Inl f \<Rightarrow> Inl f
                     | Inr (rc', jt2) \<Rightarrow>
                         if rc' < 0 then Inr (-1, jt2) else Inl Use_After_Free)))"

definition jobs_get_output :: "int \<Rightarrow> jtable \<Rightarrow> char list option" where
  "jobs_get_output jobid jt =
     (case jt of
        None \<Rightarrow> None
      | Some js \<Rightarrow> (case find_job jobid js of None \<Rightarrow> None | Some j \<Rightarrow> job_output j))"

section \<open>States used in the examples\<close>

text \<open>Lines 10, 20 and 30 with the counter in front of line 20.\<close>

definition lines_10_20_30 :: PROG_STORE where
  "lines_10_20_30 =
     \<lparr>nodes = [(1, Stmt 10 ''a''), (2, Stmt 20 ''b''), (3, Stmt 30 ''c'')],
      counter = Line 2\<rparr>"

text \<open>Lines 10 and 30 with the counter in front of line 30.\<close>

definition lines_10_30 :: PROG_STORE where
  "lines_10_30 = \<lparr>nodes = [(1, Stmt 10 ''a''), (2, Stmt 30 ''c'')], counter = Line 2\<rparr>"

text \<open>The variable store in which \<^verbatim>\<open>x\<close> is the only variable and has the value \<open>v\<close>.\<close>

definition holding :: "string \<Rightarrow> vstorage" where
  "holding v = Some [(''x'', Some v)]"

text \<open>A job as \<^verbatim>\<open>jobs_run\<close> leaves it, without and with a capture pipe.\<close>

definition running_job :: JOB_NODE where
  "running_job =
     \<lparr>job_id = 0, pgid = 100, status = ''running'', exit_status = -1, readfd = -1,
      pipeline = Some (Pipeline [[''sleep'', ''60'']] None None False),
      job_output = None\<rparr>"

definition capture_job :: JOB_NODE where
  "capture_job =
     \<lparr>job_id = 0, pgid = 100, status = ''running'', exit_status = -1, readfd = 5,
      pipeline = Some (Pipeline [[''cat'', ''blob'']] None None True),
      job_output = None\<rparr>"

text \<open>A second job, with another job ID and another process group.\<close>

definition other_job :: JOB_NODE where
  "other_job = running_job\<lparr>job_id := 7, pgid := 70\<rparr>"

text \<open>An operating system on which every \<^verbatim>\<open>kill\<close> and \<^verbatim>\<open>close\<close> succeeds.\<close>

definition obliging_os :: os where
  "obliging_os = \<lparr>kill_ok = (\<lambda>p. True), close_ok = (\<lambda>fd. True)\<rparr>"

text \<open>A pipe that holds the three bytes \<^verbatim>\<open>a\<close>, NUL, \<^verbatim>\<open>b\<close>.\<close>

definition bytes_a_NUL_b :: "int \<Rightarrow> char list" where
  "bytes_a_NUL_b fd = [CHR ''a'', CHR 0x00, CHR ''b'']"

section \<open>Properties of the program store\<close>

lemma delete_lines_nodes:
  "fst (delete_lines mn mx ls c) = filter (\<lambda>p. \<not> (mn \<le> lineno (snd p) \<and> lineno (snd p) \<le> mx)) ls"
  by (induction ls arbitrary: c) (auto simp: case_prod_beta)

lemma delete_lines_counter_kept:
  "(\<And>a s. (a, s) \<in> set ls \<Longrightarrow> mn \<le> lineno s \<Longrightarrow> lineno s \<le> mx \<Longrightarrow> Line a \<noteq> c)
   \<Longrightarrow> snd (delete_lines mn mx ls c) = c"
proof (induction ls arbitrary: c)
  case Nil
  then show ?case by simp
next
  case (Cons x ls)
  obtain b t where x: "x = (b, t)" by (cases x)
  have rest: "snd (delete_lines mn mx ls c) = c"
  proof (rule Cons.IH)
    fix a s
    assume "(a, s) \<in> set ls" and "mn \<le> lineno s" and "lineno s \<le> mx"
    then show "Line a \<noteq> c" using Cons.prems [of a s] by simp
  qed
  show ?case
  proof (cases "mn \<le> lineno t \<and> lineno t \<le> mx")
    case True
    then have "Line b \<noteq> c" using Cons.prems [of b t] x by simp
    with True rest x show ?thesis by simp
  next
    case False
    with rest x show ?thesis by (auto simp: case_prod_beta)
  qed
qed

lemma delete_lines_from_first:
  "distinct (map fst ls) \<Longrightarrow> sorted_wrt (<) (map (\<lambda>p. lineno (snd p)) ls)
   \<Longrightarrow> \<forall>p \<in> set ls. mn \<le> lineno (snd p)
   \<Longrightarrow> snd (delete_lines mn mx ls (first_ptr ls)) = first_ptr (filter (\<lambda>p. mx < lineno (snd p)) ls)"
proof (induction ls)
  case Nil
  then show ?case by simp
next
  case (Cons x ls)
  obtain b t where x: "x = (b, t)" by (cases x)
  show ?case
  proof (cases "lineno t \<le> mx")
    case True
    with Cons x show ?thesis by auto
  next
    case False
    have "snd (delete_lines mn mx ls (Line b)) = Line b"
      using Cons.prems(1) x by (intro delete_lines_counter_kept) (auto simp: rev_image_eqI)
    with False x show ?thesis by (auto simp: case_prod_beta)
  qed
qed


lemma map_of_Some_key:
  "map_of ls b = Some t \<Longrightarrow> b \<in> set (map fst ls)"
  using map_of_eq_None_iff [of ls b] by auto

lemma map_of_filter_keep:
  "map_of ls a = Some s \<Longrightarrow> P (a, s) \<Longrightarrow> map_of (filter P ls) a = Some s"
  by (induction ls) (auto split: if_splits)

lemma delete_lines_cursor_outside:
  assumes "distinct (map fst ls)" and "map_of ls a = Some s"
    and "\<not> (mn \<le> lineno s \<and> lineno s \<le> mx)"
  shows "snd (delete_lines mn mx ls (Line a)) = Line a"
proof (rule delete_lines_counter_kept)
  fix b t
  assume "(b, t) \<in> set ls" and "mn \<le> lineno t" and "lineno t \<le> mx"
  show "Line b \<noteq> Line a"
  proof
    assume "Line b = Line a"
    with \<open>(b, t) \<in> set ls\<close> assms(1) have "map_of ls a = Some t" by simp
    with assms(2,3) \<open>mn \<le> lineno t\<close> \<open>lineno t \<le> mx\<close> show False by simp
  qed
qed

lemma delete_lines_cursor_inside:
  "distinct (map fst ls) \<Longrightarrow> sorted_wrt (<) (map (\<lambda>p. lineno (snd p)) ls)
   \<Longrightarrow> map_of ls a = Some s \<Longrightarrow> mn \<le> lineno s \<Longrightarrow> lineno s \<le> mx
   \<Longrightarrow> snd (delete_lines mn mx ls (Line a)) = first_ptr (filter (\<lambda>p. mx < lineno (snd p)) ls)"
proof (induction ls)
  case Nil
  then show ?case by simp
next
  case (Cons x ls)
  obtain b t where x: "x = (b, t)" by (cases x)
  show ?case
  proof (cases "b = a")
    case True
    with Cons.prems x have ts: "t = s" by simp
    have "snd (delete_lines mn mx ls (first_ptr ls)) = first_ptr (filter (\<lambda>p. mx < lineno (snd p)) ls)"
    proof (rule delete_lines_from_first)
      show "distinct (map fst ls)" using Cons.prems by simp
      show "sorted_wrt (<) (map (\<lambda>p. lineno (snd p)) ls)" using Cons.prems by (simp add: comp_def)
      show "\<forall>p \<in> set ls. mn \<le> lineno (snd p)" using Cons.prems x ts by fastforce
    qed
    with True x ts Cons.prems show ?thesis by simp
  next
    case False
    with Cons.prems x have in_rest: "map_of ls a = Some s" by simp
    then have "(a, s) \<in> set ls" by (rule map_of_SomeD)
    with Cons.prems x have "lineno t < lineno s" by fastforce
    with Cons.prems have low: "\<not> mx < lineno t" by simp
    have "snd (delete_lines mn mx ls (Line a)) = first_ptr (filter (\<lambda>p. mx < lineno (snd p)) ls)"
      using Cons.IH Cons.prems in_rest by simp
    with False x low show ?thesis by (auto simp: case_prod_beta)
  qed
qed

lemma first_ptr_filter_cases:
  assumes "distinct (map fst ls)"
  shows "(case find (\<lambda>n. P n) (map (\<lambda>p. lineno (snd p)) ls) of
            None \<Rightarrow> first_ptr (filter (\<lambda>p. P (lineno (snd p))) ls) = Head
          | Some n \<Rightarrow> \<exists>b t. first_ptr (filter (\<lambda>p. P (lineno (snd p))) ls) = Line b
                        \<and> map_of ls b = Some t \<and> lineno t = n)"
  using assms
proof (induction ls)
  case Nil
  then show ?case by simp
next
  case (Cons x ls)
  obtain b t where x: "x = (b, t)" by (cases x)
  show ?case
  proof (cases "P (lineno t)")
    case True
    with x show ?thesis by simp
  next
    case False
    have ih: "case find (\<lambda>n. P n) (map (\<lambda>p. lineno (snd p)) ls) of
            None \<Rightarrow> first_ptr (filter (\<lambda>p. P (lineno (snd p))) ls) = Head
          | Some n \<Rightarrow> \<exists>b t. first_ptr (filter (\<lambda>p. P (lineno (snd p))) ls) = Line b
                        \<and> map_of ls b = Some t \<and> lineno t = n"
      using Cons by simp
    have nb: "\<And>c u. map_of ls c = Some u \<Longrightarrow> c \<noteq> b"
      using Cons.prems x by (auto dest!: map_of_SomeD simp: rev_image_eqI)
    from ih False x nb show ?thesis
      by (cases "find (\<lambda>n. P n) (map (\<lambda>p. lineno (snd p)) ls)") auto
  qed
qed


text \<open>
  Claim C6.  In a well-formed store whose counter designates line \<open>L\<close>, \<^verbatim>\<open>prog_delete\<close>
  with a valid range returns 0 and removes exactly the lines of the range.  If \<open>L\<close> is
  outside the range the counter still designates line \<open>L\<close>, and \<^verbatim>\<open>prog_fetch\<close>
  returns the same statement as before.  If \<open>L\<close> is inside the range, the counter
  designates the first surviving line whose number exceeds \<open>mx\<close>, and it is at end when
  no surviving line has such a number.
\<close>

theorem delete_preserves_cursor:
  assumes wf: "wf_pstorage ps" and rng: "1 \<le> mn" "mn \<le> mx"
    and des: "designated ps = Some L"
  shows "fst (prog_delete mn mx ps) = 0 \<and>
    wf_pstorage (snd (prog_delete mn mx ps)) \<and>
    line_numbers (snd (prog_delete mn mx ps))
      = filter (\<lambda>n. \<not> (mn \<le> n \<and> n \<le> mx)) (line_numbers ps) \<and>
    (\<not> (mn \<le> L \<and> L \<le> mx) \<longrightarrow>
       designated (snd (prog_delete mn mx ps)) = Some L \<and>
       prog_fetch (snd (prog_delete mn mx ps)) = prog_fetch ps) \<and>
    (mn \<le> L \<and> L \<le> mx \<longrightarrow>
       (case find (\<lambda>n. mx < n) (line_numbers (snd (prog_delete mn mx ps))) of
             None \<Rightarrow> at_end (snd (prog_delete mn mx ps))
           | Some n \<Rightarrow> designated (snd (prog_delete mn mx ps)) = Some n))"
proof -
  from des obtain st where ps: "ps = Some st"
    by (cases ps) (auto simp: designated_def)
  from des ps obtain a s where c: "counter st = Line a" and s: "map_of (nodes st) a = Some s"
    and L: "lineno s = L"
    by (auto simp: designated_def split: line_ptr.splits)
  from wf ps have dist: "distinct (map fst (nodes st))"
    and sorted: "sorted_wrt (<) (map (\<lambda>p. lineno (snd p)) (nodes st))"
    by (simp_all add: wf_pstorage_def wf_store_def)
  let ?keep = "\<lambda>p. \<not> (mn \<le> lineno (snd p) \<and> lineno (snd p) \<le> mx)"
  let ?ls' = "filter ?keep (nodes st)"
  let ?c' = "snd (delete_lines mn mx (nodes st) (Line a))"
  have res: "prog_delete mn mx ps = (0, Some \<lparr>nodes = ?ls', counter = ?c'\<rparr>)"
    using rng ps c delete_lines_nodes [of mn mx "nodes st" "Line a"]
    by (simp add: prog_delete_def case_prod_beta)
  have dist': "distinct (map fst ?ls')" using dist by (simp add: distinct_map_filter)
  have sorted': "sorted_wrt (<) (map (\<lambda>p. lineno (snd p)) ?ls')"
    using sorted by (simp add: sorted_wrt_map sorted_wrt_filter)
  have nums: "line_numbers (Some \<lparr>nodes = ?ls', counter = ?c'\<rparr>)
      = filter (\<lambda>n. \<not> (mn \<le> n \<and> n \<le> mx)) (line_numbers ps)"
    by (simp add: line_numbers_def ps filter_map comp_def)
  show ?thesis
  proof (cases "mn \<le> L \<and> L \<le> mx")
    case False
    then have out: "\<not> (mn \<le> lineno s \<and> lineno s \<le> mx)" using L by simp
    have c': "?c' = Line a" by (rule delete_lines_cursor_outside [OF dist s out])
    have s': "map_of ?ls' a = Some s" using s out by (intro map_of_filter_keep) simp_all
    then have "a \<in> set (map fst ?ls')" by (rule map_of_Some_key)
    with dist' sorted' c' have "wf_store \<lparr>nodes = ?ls', counter = ?c'\<rparr>"
      by (simp add: wf_store_def)
    then have wf': "wf_pstorage (Some \<lparr>nodes = ?ls', counter = ?c'\<rparr>)"
      by (simp add: wf_pstorage_def)
    have "designated (Some \<lparr>nodes = ?ls', counter = ?c'\<rparr>) = Some L"
      and "prog_fetch (Some \<lparr>nodes = ?ls', counter = ?c'\<rparr>) = prog_fetch ps"
      using c' s' s c L ps by (simp_all add: designated_def prog_fetch_def)
    with nums wf' False show ?thesis
      unfolding res fst_conv snd_conv by blast
  next
    case True
    then have inr: "mn \<le> lineno s" "lineno s \<le> mx" using L by simp_all
    have c': "?c' = first_ptr (filter (\<lambda>p. mx < lineno (snd p)) (nodes st))"
      by (rule delete_lines_cursor_inside [OF dist sorted s inr])
    have same: "filter (\<lambda>p. mx < lineno (snd p)) (nodes st) = filter (\<lambda>p. mx < lineno (snd p)) ?ls'"
      using rng by (simp add: conj_commute) (rule filter_cong, auto)
    note fc = first_ptr_filter_cases [OF dist', of "\<lambda>n. mx < n"]
    have "case find (\<lambda>n. mx < n) (map (\<lambda>p. lineno (snd p)) ?ls') of
            None \<Rightarrow> ?c' = Head
          | Some n \<Rightarrow> \<exists>b t. ?c' = Line b \<and> map_of ?ls' b = Some t \<and> lineno t = n"
      using fc by (simp only: c' same)
    note pos = this
    then have "?c' = Head \<or> (\<exists>b t. ?c' = Line b \<and> map_of ?ls' b = Some t)"
      by (cases "find (\<lambda>n. mx < n) (map (\<lambda>p. lineno (snd p)) ?ls')") auto
    then have "case ?c' of Line b \<Rightarrow> b \<in> set (map fst ?ls') | _ \<Rightarrow> True"
      by (auto dest: map_of_Some_key)
    with dist' sorted' have wf': "wf_store \<lparr>nodes = ?ls', counter = ?c'\<rparr>"
      by (simp add: wf_store_def split: line_ptr.splits)
    from pos have "case find (\<lambda>n. mx < n) (line_numbers (Some \<lparr>nodes = ?ls', counter = ?c'\<rparr>)) of
             None \<Rightarrow> at_end (Some \<lparr>nodes = ?ls', counter = ?c'\<rparr>)
           | Some n \<Rightarrow> designated (Some \<lparr>nodes = ?ls', counter = ?c'\<rparr>) = Some n"
      by (auto simp: line_numbers_def at_end_def designated_def split: option.splits)
    moreover from wf' have "wf_pstorage (Some \<lparr>nodes = ?ls', counter = ?c'\<rparr>)"
      by (simp add: wf_pstorage_def)
    ultimately show ?thesis
      using nums True unfolding res fst_conv snd_conv by blast
  qed
qed


text \<open>
  The example of the specification: lines 10, 20, 30 with the counter in front of 20;
  after deleting the range from 20 to 20 the counter designates line 30.
\<close>

theorem delete_preserves_cursor_witness:
  "wf_pstorage (Some lines_10_20_30) \<and> (1::int) \<le> 20 \<and> (20::int) \<le> 20 \<and>
   designated (Some lines_10_20_30) = Some 20 \<and>
   fst (prog_delete 20 20 (Some lines_10_20_30)) = 0 \<and>
   designated (snd (prog_delete 20 20 (Some lines_10_20_30))) = Some 30"
proof -
  have h1: "wf_pstorage (Some lines_10_20_30)"
    by (simp add: wf_pstorage_def wf_store_def lines_10_20_30_def)
  have h2: "(1::int) \<le> 20" and h3: "(20::int) \<le> 20" by simp_all
  have h4: "designated (Some lines_10_20_30) = Some 20"
    by (simp add: designated_def lines_10_20_30_def)
  have nums: "line_numbers (Some lines_10_20_30) = [10, 20, 30]"
    by (simp add: line_numbers_def lines_10_20_30_def)
  note inst = delete_preserves_cursor [OF h1 h2 h3 h4]
  from inst have rc: "fst (prog_delete 20 20 (Some lines_10_20_30)) = 0" by simp
  from inst have a: "line_numbers (snd (prog_delete 20 20 (Some lines_10_20_30))) = [10, 30]"
    by (simp add: nums)
  from inst have "case find (\<lambda>n. 20 < n) (line_numbers (snd (prog_delete 20 20 (Some lines_10_20_30)))) of
             None \<Rightarrow> at_end (snd (prog_delete 20 20 (Some lines_10_20_30)))
           | Some n \<Rightarrow> designated (snd (prog_delete 20 20 (Some lines_10_20_30))) = Some n"
    by blast
  then have "designated (snd (prog_delete 20 20 (Some lines_10_20_30))) = Some 30"
    unfolding a by simp
  with h1 h4 rc show ?thesis by simp
qed

lemma insert_line_keys:
  "set (map fst (insert_line a stmt ls)) \<subseteq> insert a (set (map fst ls))"
proof (induction ls)
  case Nil
  then show ?case by simp
next
  case (Cons x ls)
  obtain b t where x: "x = (b, t)" by (cases x)
  show ?case using Cons.IH unfolding x by (auto split: if_splits)
qed

lemma insert_line_keys_sup:
  "set (map fst ls) \<subseteq> set (map fst (insert_line a stmt ls))"
proof (induction ls)
  case Nil
  then show ?case by simp
next
  case (Cons x ls)
  obtain b t where x: "x = (b, t)" by (cases x)
  show ?case using Cons.IH unfolding x by (auto split: if_splits)
qed

lemma insert_line_distinct:
  "distinct (map fst ls) \<Longrightarrow> a \<notin> set (map fst ls) \<Longrightarrow> distinct (map fst (insert_line a stmt ls))"
proof (induction ls)
  case Nil
  then show ?case by simp
next
  case (Cons x ls)
  obtain b t where x: "x = (b, t)" by (cases x)
  have "b \<notin> set (map fst (insert_line a stmt ls))"
    using insert_line_keys [of a stmt ls] Cons.prems x by auto
  with Cons x show ?case by auto
qed

lemma insert_line_numbers:
  "set (map (\<lambda>p. lineno (snd p)) (insert_line a stmt ls))
     = insert (lineno stmt) (set (map (\<lambda>p. lineno (snd p)) ls))"
proof (induction ls)
  case Nil
  then show ?case by simp
next
  case (Cons x ls)
  obtain b t where x: "x = (b, t)" by (cases x)
  show ?case using Cons.IH unfolding x by (simp add: insert_commute)
qed

lemma insert_line_sorted:
  "sorted_wrt (<) (map (\<lambda>p. lineno (snd p)) ls)
   \<Longrightarrow> sorted_wrt (<) (map (\<lambda>p. lineno (snd p)) (insert_line a stmt ls))"
proof (induction ls)
  case Nil
  then show ?case by simp
next
  case (Cons x ls)
  obtain b t where x: "x = (b, t)" by (cases x)
  from Cons.prems x have above: "\<forall>n \<in> set (map (\<lambda>p. lineno (snd p)) ls). lineno t < n"
    and rest: "sorted_wrt (<) (map (\<lambda>p. lineno (snd p)) ls)" by auto
  show ?case
  proof (cases "lineno t < lineno stmt")
    case True
    have "\<forall>n \<in> set (map (\<lambda>p. lineno (snd p)) (insert_line a stmt ls)). lineno t < n"
      using above True unfolding insert_line_numbers by simp
    with True x Cons.IH [OF rest] show ?thesis by auto
  next
    case False
    with x above rest show ?thesis by auto
  qed
qed

lemma insert_line_lookup:
  "a \<noteq> c \<Longrightarrow> map_option lineno (map_of (insert_line a stmt ls) c) = map_option lineno (map_of ls c)"
  by (induction ls) auto


text \<open>
  Claim C7.  In a well-formed store, \<^verbatim>\<open>prog_insert\<close> of a statement with positive line
  number into a fresh node returns 0 and leaves the logical position of the counter as
  it was: a counter that designated line \<open>L\<close> (the replaced line included) still
  designates \<open>L\<close>, a counter at end stays at end, and the line numbers are still
  strictly increasing, now with the number of the inserted statement among them.
\<close>

theorem insert_preserves_cursor:
  assumes wf: "wf_pstorage ps" and pos: "0 < lineno stmt" and fr: "fresh a ps"
  shows "fst (prog_insert a stmt ps) = 0 \<and>
    wf_pstorage (snd (prog_insert a stmt ps)) \<and>
    (\<forall>L. designated ps = Some L \<longrightarrow> designated (snd (prog_insert a stmt ps)) = Some L) \<and>
    (at_end ps \<longrightarrow> at_end (snd (prog_insert a stmt ps))) \<and>
    sorted_wrt (<) (line_numbers (snd (prog_insert a stmt ps))) \<and>
    set (line_numbers (snd (prog_insert a stmt ps))) = insert (lineno stmt) (set (line_numbers ps))"
proof (cases ps)
  case None
  with pos show ?thesis
    by (simp add: prog_insert_def wf_pstorage_def wf_store_def designated_def at_end_def
        line_numbers_def)
next
  case (Some st)
  let ?ls' = "insert_line a stmt (nodes st)"
  have res: "prog_insert a stmt ps = (0, Some (st\<lparr>nodes := ?ls'\<rparr>))"
    using pos Some by (simp add: prog_insert_def)
  from wf Some have dist: "distinct (map fst (nodes st))"
    and sorted: "sorted_wrt (<) (map (\<lambda>p. lineno (snd p)) (nodes st))"
    and cnt: "case counter st of Line c \<Rightarrow> c \<in> set (map fst (nodes st)) | _ \<Rightarrow> True"
    by (simp_all add: wf_pstorage_def wf_store_def)
  from fr Some have fr': "a \<notin> set (map fst (nodes st))" by (simp add: fresh_def)
  have dist': "distinct (map fst ?ls')" by (rule insert_line_distinct [OF dist fr'])
  have sorted': "sorted_wrt (<) (map (\<lambda>p. lineno (snd p)) ?ls')"
    by (rule insert_line_sorted [OF sorted])
  have cnt': "case counter st of Line c \<Rightarrow> c \<in> set (map fst ?ls') | _ \<Rightarrow> True"
    using cnt insert_line_keys_sup [of "nodes st" a stmt] by (auto split: line_ptr.splits)
  have wf': "wf_pstorage (Some (st\<lparr>nodes := ?ls'\<rparr>))"
    using dist' sorted' cnt' by (simp add: wf_pstorage_def wf_store_def split: line_ptr.splits)
  have des: "designated (Some (st\<lparr>nodes := ?ls'\<rparr>)) = designated ps"
  proof (cases "counter st")
    case (Line c)
    with cnt fr' have "a \<noteq> c" by auto
    then show ?thesis using Line Some by (simp add: designated_def insert_line_lookup)
  qed (simp_all add: designated_def Some)
  have ends: "at_end (Some (st\<lparr>nodes := ?ls'\<rparr>)) = at_end ps"
    by (simp add: at_end_def Some)
  have nums: "set (line_numbers (Some (st\<lparr>nodes := ?ls'\<rparr>))) = insert (lineno stmt) (set (line_numbers ps))"
    using insert_line_numbers [of a stmt "nodes st"] by (simp add: line_numbers_def Some)
  have srt: "sorted_wrt (<) (line_numbers (Some (st\<lparr>nodes := ?ls'\<rparr>)))"
    using sorted' by (simp add: line_numbers_def)
  show ?thesis unfolding res fst_conv snd_conv using wf' des ends nums srt by simp
qed

text \<open>
  The example of the specification: lines 10 and 30 with the counter in front of 30;
  after inserting line 20 the counter still designates line 30.
\<close>

theorem insert_preserves_cursor_witness:
  "wf_pstorage (Some lines_10_30) \<and> 0 < lineno (Stmt 20 ''b'') \<and> fresh 3 (Some lines_10_30) \<and>
   designated (Some lines_10_30) = Some 30 \<and>
   fst (prog_insert 3 (Stmt 20 ''b'') (Some lines_10_30)) = 0 \<and>
   designated (snd (prog_insert 3 (Stmt 20 ''b'') (Some lines_10_30))) = Some 30"
proof -
  have h1: "wf_pstorage (Some lines_10_30)"
    by (simp add: wf_pstorage_def wf_store_def lines_10_30_def)
  have h2: "0 < lineno (Stmt 20 ''b'')" by simp
  have h3: "fresh 3 (Some lines_10_30)" by (simp add: fresh_def lines_10_30_def)
  have h4: "designated (Some lines_10_30) = Some 30"
    by (simp add: designated_def lines_10_30_def)
  from insert_preserves_cursor [OF h1 h2 h3] h1 h2 h3 h4 show ?thesis by blast
qed

text \<open>
  Claim C5.  After the first \<^verbatim>\<open>prog_insert\<close> and without \<^verbatim>\<open>prog_reset\<close> the counter is
  still \<^verbatim>\<open>NULL\<close>.  \<^verbatim>\<open>prog_fetch\<close> reads \<^verbatim>\<open>pstorage->counter->content\<close> through that
  null pointer, where \<^verbatim>\<open>prog_next\<close>, in the same state, tests the counter and returns
  \<^verbatim>\<open>NULL\<close>.
\<close>

theorem fetch_unset_counter:
  "prog_fetch (snd (prog_insert 1 (Stmt 10 ''x'') None)) = Inl Null_Deref \<and>
   prog_next (snd (prog_insert 1 (Stmt 10 ''x'') None))
     = Inr (None, snd (prog_insert 1 (Stmt 10 ''x'') None))"
  by (simp add: prog_fetch_def prog_next_def prog_insert_def)

lemma goto_line_found:
  "distinct (map fst ls) \<Longrightarrow> n \<in> set (map (\<lambda>p. lineno (snd p)) ls)
   \<Longrightarrow> \<exists>a s. goto_line n ls = Some (a, s) \<and> lineno s = n \<and> map_of ls a = Some s"
proof (induction ls)
  case Nil
  then show ?case by simp
next
  case (Cons x ls)
  obtain b t where x: "x = (b, t)" by (cases x)
  show ?case
  proof (cases "lineno t = n")
    case True
    with x show ?thesis by simp
  next
    case False
    with Cons x obtain a s where f: "goto_line n ls = Some (a, s)" "lineno s = n" "map_of ls a = Some s"
      by auto
    from f(3) have "a \<in> set (map fst ls)" by (rule map_of_Some_key)
    with Cons.prems x have "a \<noteq> b" by auto
    with f False x show ?thesis by simp
  qed
qed

lemma goto_line_missing:
  "n \<notin> set (map (\<lambda>p. lineno (snd p)) ls) \<Longrightarrow> goto_line n ls = None"
  by (induction ls) auto

text \<open>
  Claim C10.  \<^verbatim>\<open>prog_goto\<close> on the store that was never initialised dereferences the
  null \<^verbatim>\<open>pstorage\<close>.  Every call of \<^verbatim>\<open>prog_insert\<close> leaves an initialised store, and on
  an initialised, well-formed store \<^verbatim>\<open>prog_goto\<close> does what its documentation says: when
  a line with the number exists, its statement is returned and the counter designates
  it, with the lines unchanged; otherwise \<^verbatim>\<open>NULL\<close> is returned and the store is
  unchanged.  \<^verbatim>\<open>prog_list\<close>, \<^verbatim>\<open>prog_delete\<close>, \<^verbatim>\<open>prog_reset\<close>, \<^verbatim>\<open>prog_fetch\<close> and
  \<^verbatim>\<open>prog_next\<close> test for the null \<^verbatim>\<open>pstorage\<close> and return without touching it.
\<close>

theorem goto_needs_initialised_store:
  "prog_goto n None = Inl Null_Deref \<and>
   (\<exists>st. snd (prog_insert a stmt ps) = Some st) \<and>
   (wf_store st \<longrightarrow>
      (if n \<in> set (line_numbers (Some st))
       then \<exists>s ps'. prog_goto n (Some st) = Inr (Some s, ps') \<and> lineno s = n \<and>
              designated ps' = Some n \<and> prog_fetch ps' = Inr (Some s) \<and>
              line_numbers ps' = line_numbers (Some st)
       else prog_goto n (Some st) = Inr (None, Some st))) \<and>
   prog_list None = (0, []) \<and> snd (prog_delete mn mx None) = None \<and>
   prog_reset None = None \<and> prog_fetch None = Inr None \<and> prog_next None = Inr (None, None)"
proof -
  have a: "prog_goto n None = Inl Null_Deref" by (simp add: prog_goto_def)
  have b: "\<exists>st. snd (prog_insert a stmt ps) = Some st" by (simp add: prog_insert_def Let_def)
  have c: "wf_store st \<longrightarrow>
      (if n \<in> set (line_numbers (Some st))
       then \<exists>s ps'. prog_goto n (Some st) = Inr (Some s, ps') \<and> lineno s = n \<and>
              designated ps' = Some n \<and> prog_fetch ps' = Inr (Some s) \<and>
              line_numbers ps' = line_numbers (Some st)
       else prog_goto n (Some st) = Inr (None, Some st))"
  proof (intro impI)
    assume wf: "wf_store st"
    show "if n \<in> set (line_numbers (Some st))
       then \<exists>s ps'. prog_goto n (Some st) = Inr (Some s, ps') \<and> lineno s = n \<and>
              designated ps' = Some n \<and> prog_fetch ps' = Inr (Some s) \<and>
              line_numbers ps' = line_numbers (Some st)
       else prog_goto n (Some st) = Inr (None, Some st)"
    proof (cases "n \<in> set (line_numbers (Some st))")
      case True
      then have "n \<in> set (map (\<lambda>p. lineno (snd p)) (nodes st))" by (simp add: line_numbers_def)
      moreover from wf have "distinct (map fst (nodes st))" by (simp add: wf_store_def)
      ultimately obtain a s where "goto_line n (nodes st) = Some (a, s)" "lineno s = n"
        "map_of (nodes st) a = Some s"
        using goto_line_found by blast
      then show ?thesis using True
        by (simp add: prog_goto_def designated_def prog_fetch_def line_numbers_def)
    next
      case False
      then have "goto_line n (nodes st) = None"
        by (intro goto_line_missing) (simp add: line_numbers_def)
      with False show ?thesis by (simp add: prog_goto_def)
    qed
  qed
  have d: "prog_list None = (0, []) \<and> snd (prog_delete mn mx None) = None \<and>
   prog_reset None = None \<and> prog_fetch None = Inr None \<and> prog_next None = Inr (None, None)"
    by (simp add: prog_list_def prog_delete_def prog_reset_def prog_fetch_def prog_next_def)
  from a b c d show ?thesis by blast
qed


text \<open>On lines 10, 20, 30 a \<^verbatim>\<open>prog_goto\<close> to 30 returns that line and moves the counter.\<close>

theorem goto_needs_initialised_store_witness:
  "wf_store lines_10_20_30 \<and> 30 \<in> set (line_numbers (Some lines_10_20_30)) \<and>
   prog_goto 30 None = Inl Null_Deref \<and>
   (\<exists>s ps'. prog_goto 30 (Some lines_10_20_30) = Inr (Some s, ps') \<and> lineno s = 30 \<and>
      designated ps' = Some 30 \<and> prog_fetch ps' = Inr (Some s))"
proof -
  have h1: "wf_store lines_10_20_30" by (simp add: wf_store_def lines_10_20_30_def)
  have h2: "30 \<in> set (line_numbers (Some lines_10_20_30))"
    by (simp add: line_numbers_def lines_10_20_30_def)
  from goto_needs_initialised_store [of 30 0 "Stmt 1 []" None lines_10_20_30 1 1] h1 h2
  show ?thesis by simp blast
qed

lemma first_ptr_cases:
  "first_ptr ls = Head \<or> (\<exists>b. first_ptr ls = Line b \<and> b \<in> set (map fst ls))"
  by (cases ls) auto

lemma wf_insert:
  assumes wf: "wf_pstorage ps" and fr: "fresh a ps"
  shows "wf_pstorage (snd (prog_insert a stmt ps))"
proof (cases ps)
  case None
  then show ?thesis by (simp add: prog_insert_def wf_pstorage_def wf_store_def Let_def)
next
  case (Some st)
  from wf Some have dist: "distinct (map fst (nodes st))"
    and sorted: "sorted_wrt (<) (map (\<lambda>p. lineno (snd p)) (nodes st))"
    and cnt: "case counter st of Line c \<Rightarrow> c \<in> set (map fst (nodes st)) | _ \<Rightarrow> True"
    by (simp_all add: wf_pstorage_def wf_store_def)
  from fr Some have fr': "a \<notin> set (map fst (nodes st))" by (simp add: fresh_def)
  have "case counter st of Line c \<Rightarrow> c \<in> set (map fst (insert_line a stmt (nodes st))) | _ \<Rightarrow> True"
    using cnt insert_line_keys_sup [of "nodes st" a stmt] by (auto split: line_ptr.splits)
  with insert_line_distinct [OF dist fr'] insert_line_sorted [OF sorted] wf Some
  show ?thesis
    by (simp add: prog_insert_def wf_pstorage_def wf_store_def split: line_ptr.splits)
qed

lemma wf_delete:
  assumes wf: "wf_pstorage ps"
  shows "wf_pstorage (snd (prog_delete mn mx ps))"
proof (cases ps)
  case None
  then show ?thesis by (simp add: prog_delete_def wf_pstorage_def)
next
  case (Some st)
  from wf Some have dist: "distinct (map fst (nodes st))"
    and sorted: "sorted_wrt (<) (map (\<lambda>p. lineno (snd p)) (nodes st))"
    and cnt: "case counter st of Line c \<Rightarrow> c \<in> set (map fst (nodes st)) | _ \<Rightarrow> True"
    by (simp_all add: wf_pstorage_def wf_store_def)
  let ?keep = "\<lambda>p. \<not> (mn \<le> lineno (snd p) \<and> lineno (snd p) \<le> mx)"
  let ?ls' = "filter ?keep (nodes st)"
  let ?c' = "snd (delete_lines mn mx (nodes st) (counter st))"
  have dist': "distinct (map fst ?ls')" using dist by (simp add: distinct_map_filter)
  have sorted': "sorted_wrt (<) (map (\<lambda>p. lineno (snd p)) ?ls')"
    using sorted by (simp add: sorted_wrt_map sorted_wrt_filter)
  have c': "?c' = Null \<or> ?c' = Head \<or> (\<exists>b. ?c' = Line b \<and> b \<in> set (map fst ?ls'))"
  proof (cases "counter st")
    case Null
    have "?c' = Null" unfolding Null by (rule delete_lines_counter_kept) simp
    then show ?thesis by simp
  next
    case Head
    have "?c' = Head" unfolding Head by (rule delete_lines_counter_kept) simp
    then show ?thesis by simp
  next
    case (Line a)
    with cnt have "a \<in> fst ` set (nodes st)" by simp
    then obtain s where s: "map_of (nodes st) a = Some s"
      using map_of_eq_None_iff [of "nodes st" a] by auto
    show ?thesis
    proof (cases "mn \<le> lineno s \<and> lineno s \<le> mx")
      case False
      have "?c' = Line a" unfolding Line by (rule delete_lines_cursor_outside [OF dist s False])
      moreover have "map_of ?ls' a = Some s" using s False by (intro map_of_filter_keep) simp_all
      then have "a \<in> set (map fst ?ls')" by (rule map_of_Some_key)
      ultimately show ?thesis by simp
    next
      case True
      let ?above = "filter (\<lambda>p. mx < lineno (snd p)) (nodes st)"
      have eq: "?c' = first_ptr ?above"
        unfolding Line using True by (intro delete_lines_cursor_inside [OF dist sorted s]) simp_all
      have "set (map fst ?above) \<subseteq> set (map fst ?ls')" by auto
      with first_ptr_cases [of ?above] eq show ?thesis by auto
    qed
  qed
  have "wf_store \<lparr>nodes = ?ls', counter = ?c'\<rparr>"
    using dist' sorted' c' by (elim disjE exE conjE) (simp_all add: wf_store_def)
  moreover have "snd (prog_delete mn mx ps) = ps \<or>
      snd (prog_delete mn mx ps) = Some \<lparr>nodes = ?ls', counter = ?c'\<rparr>"
    using Some delete_lines_nodes [of mn mx "nodes st" "counter st"]
    by (simp add: prog_delete_def case_prod_beta)
  ultimately show ?thesis using wf by (auto simp: wf_pstorage_def)
qed

lemma wf_reset:
  assumes "wf_pstorage ps"
  shows "wf_pstorage (prog_reset ps)"
proof (cases ps)
  case None
  then show ?thesis by (simp add: prog_reset_def wf_pstorage_def)
next
  case (Some st)
  with assms first_ptr_cases [of "nodes st"] show ?thesis
    by (elim disjE exE conjE) (simp_all add: prog_reset_def wf_pstorage_def wf_store_def)
qed


lemma next_ptr_cases:
  "next_ptr ls a = Inr p \<Longrightarrow> p = Head \<or> (\<exists>b. p = Line b \<and> b \<in> set (map fst ls))"
proof (induction ls)
  case Nil
  then show ?case by simp
next
  case (Cons x ls)
  obtain b t where x: "x = (b, t)" by (cases x)
  show ?case
  proof (cases "b = a")
    case True
    with Cons.prems x first_ptr_cases [of ls] show ?thesis by auto
  next
    case False
    with Cons x show ?thesis by auto
  qed
qed

lemma wf_next:
  assumes "wf_pstorage ps" and "prog_next ps = Inr (r, ps')"
  shows "wf_pstorage ps'"
proof (cases ps)
  case None
  with assms show ?thesis by (simp add: prog_next_def wf_pstorage_def)
next
  case (Some st)
  show ?thesis
  proof (cases "counter st")
    case (Line a)
    with assms(2) Some obtain p where p: "next_ptr (nodes st) a = Inr p"
      and ps': "ps' = Some (st\<lparr>counter := p\<rparr>)"
      by (auto simp: prog_next_def split: sum.splits)
    from next_ptr_cases [OF p] assms(1) Some show ?thesis unfolding ps'
      by (elim disjE exE conjE) (simp_all add: wf_pstorage_def wf_store_def)
  next
    case Null
    with assms Some show ?thesis by (auto simp: prog_next_def)
  next
    case Head
    with assms Some show ?thesis by (auto simp: prog_next_def)
  qed
qed

lemma goto_line_key:
  "goto_line n ls = Some (a, s) \<Longrightarrow> a \<in> set (map fst ls)"
  by (induction ls) (auto split: if_splits)

lemma wf_goto:
  assumes "wf_pstorage ps" and "prog_goto n ps = Inr (r, ps')"
  shows "wf_pstorage ps'"
proof (cases ps)
  case None
  with assms show ?thesis by (simp add: prog_goto_def)
next
  case (Some st)
  show ?thesis
  proof (cases "goto_line n (nodes st)")
    case None
    with assms Some show ?thesis by (simp add: prog_goto_def)
  next
    case (Some p)
    obtain a s where p: "p = (a, s)" by (cases p)
    from Some p have "a \<in> set (map fst (nodes st))"
      using goto_line_key [of n "nodes st" a s] by simp
    moreover from assms(2) \<open>ps = Some st\<close> Some p
    have "ps' = Some (st\<lparr>counter := Line a\<rparr>)" by (simp add: prog_goto_def)
    ultimately show ?thesis using assms(1) \<open>ps = Some st\<close>
      by (simp add: wf_pstorage_def wf_store_def)
  qed
qed

lemma reachable_wf: "reachable ps \<Longrightarrow> wf_pstorage ps"
proof (induction rule: reachable.induct)
  case start
  show ?case by (simp add: wf_pstorage_def)
next
  case (after_insert ps a stmt)
  then show ?case by (simp add: wf_insert)
next
  case (after_delete ps mn mx)
  then show ?case by (simp add: wf_delete)
next
  case (after_reset ps)
  then show ?case by (simp add: wf_reset)
next
  case (after_next ps r ps')
  then show ?case by (blast intro: wf_next)
next
  case (after_goto ps n r ps')
  then show ?case by (blast intro: wf_goto)
qed

section \<open>Properties of the variable store\<close>

lemma get_int_of_stored:
  "get_string_loop n ls = Some v \<Longrightarrow>
   get_int_loop n ls =
     (if v = [] then None
      else (case strtol v of (result, end_ptr) \<Rightarrow> if end_ptr = [] then Some result else None))"
  by (induction ls) (auto split: if_splits)

lemma store_get_int_of_stored:
  "store_get_string n vs = Some v \<Longrightarrow>
   store_get_int n vs =
     (if v = [] then None
      else (case strtol v of (result, end_ptr) \<Rightarrow> if end_ptr = [] then Some result else None))"
  by (cases vs) (simp_all add: store_get_string_def store_get_int_def get_int_of_stored)

lemma set_string_loop_caller:
  assumes "int (length n) + 1 \<le> INT_MAX" and "int (length s) + 1 \<le> INT_MAX"
  shows "\<exists>rest'. set_string_loop n (Some (Caller s)) ls rest = Inr rest' \<and>
           get_string_loop n rest' = Some s"
  using assms by (induction rest) (auto simp: copy_string_def pointee_def)

lemma set_string_loop_lent_same:
  "get_string_loop n rest = Some old \<Longrightarrow> get_string_loop n ls = Some old
   \<Longrightarrow> set_string_loop n (Some (Lent n)) ls rest = Inl Use_After_Free"
  by (induction rest) (auto simp: pointee_def split: if_splits)

lemma isdigit_digit_char: "d < 10 \<Longrightarrow> isdigit (digit_char d)"
  by (simp add: isdigit_def digit_char_def)

lemma digit_val_digit_char: "d < 10 \<Longrightarrow> digit_val (digit_char d) = int d"
  by (simp add: digit_val_def digit_char_def)

lemma digits_all_isdigit: "\<forall>c \<in> set (digits n). isdigit c"
proof (induction n rule: digits.induct)
  case (1 n)
  show ?case
  proof (cases "n < 10")
    case True
    then show ?thesis by (subst digits.simps) (simp add: isdigit_digit_char)
  next
    case False
    with 1 show ?thesis by (subst digits.simps) (simp add: isdigit_digit_char)
  qed
qed

lemma digits_not_Nil: "digits n \<noteq> []"
  by (subst digits.simps) simp

lemma digits_value: "foldl (\<lambda>acc c. 10 * acc + digit_val c) 0 (digits n) = int n"
proof (induction n rule: digits.induct)
  case (1 n)
  show ?case
  proof (cases "n < 10")
    case True
    then show ?thesis by (subst digits.simps) (simp add: digit_val_digit_char)
  next
    case False
    with 1 have "foldl (\<lambda>acc c. 10 * acc + digit_val c) 0 (digits (n div 10)) = int (n div 10)"
      by simp
    with False show ?thesis
      by (subst digits.simps) (simp add: digit_val_digit_char zdiv_int zmod_int)
  qed
qed

lemma isdigit_plain:
  "isdigit c \<Longrightarrow> \<not> isspace c \<and> c \<noteq> CHR ''-'' \<and> c \<noteq> CHR ''+''"
  by (auto simp: isdigit_def isspace_def)

lemma strtol_plain:
  assumes "ds \<noteq> []" and all: "\<forall>c \<in> set ds. isdigit c"
  shows "strtol ds = (clamp_long (foldl (\<lambda>acc c. 10 * acc + digit_val c) 0 ds), [])"
proof -
  from assms obtain c cs where d: "ds = c # cs" by (cases ds) auto
  with all have c: "\<not> isspace c \<and> c \<noteq> CHR ''-'' \<and> c \<noteq> CHR ''+''" by (simp add: isdigit_plain)
  have tw: "takeWhile isdigit ds = ds" using all by (simp add: takeWhile_eq_all_conv)
  have dw: "dropWhile isdigit ds = []" using all by simp
  have sp: "dropWhile isspace ds = ds" using d c by simp
  have neg: "(case ds of [] \<Rightarrow> False | c # r \<Rightarrow> c = CHR ''-'') = False" using d c by simp
  have s2: "(case ds of [] \<Rightarrow> [] | c # r \<Rightarrow> if c = CHR ''-'' \<or> c = CHR ''+'' then r else ds) = ds"
    using d c by simp
  show ?thesis unfolding strtol_def sp Let_def neg s2 tw dw using assms(1) by simp
qed

lemma strtol_minus:
  assumes "ds \<noteq> []" and all: "\<forall>c \<in> set ds. isdigit c"
  shows "strtol (CHR ''-'' # ds) = (clamp_long (- foldl (\<lambda>acc c. 10 * acc + digit_val c) 0 ds), [])"
proof -
  have tw: "takeWhile isdigit ds = ds" using all by (simp add: takeWhile_eq_all_conv)
  have dw: "dropWhile isdigit ds = []" using all by simp
  have sp: "dropWhile isspace (CHR ''-'' # ds) = CHR ''-'' # ds" by (simp add: isspace_def)
  show ?thesis unfolding strtol_def sp Let_def list.case using assms(1) by (simp add: tw dw)
qed

lemma strtol_show_long:
  assumes "LONG_MIN \<le> k" and "k \<le> LONG_MAX"
  shows "strtol (show_long k) = (k, [])"
proof (cases "k < 0")
  case True
  then have k: "- int (nat (- k)) = k" by simp
  have "strtol (CHR ''-'' # digits (nat (- k))) = (clamp_long (- int (nat (- k))), [])"
    using strtol_minus [OF digits_not_Nil digits_all_isdigit, of "nat (- k)"]
    by (simp only: digits_value)
  moreover have "clamp_long k = k" using assms by (simp add: clamp_long_def)
  ultimately show ?thesis using True by (simp only: show_long_def k if_True)
next
  case False
  then have k: "int (nat k) = k" by simp
  have "strtol (digits (nat k)) = (clamp_long (int (nat k)), [])"
    using strtol_plain [OF digits_not_Nil digits_all_isdigit, of "nat k"]
    by (simp only: digits_value)
  moreover have "clamp_long k = k" using assms by (simp add: clamp_long_def)
  ultimately show ?thesis using False by (simp only: show_long_def k if_False)
qed

lemma show_long_not_Nil: "show_long k \<noteq> []"
  by (simp add: show_long_def digits_not_Nil)


lemma c_div_10: "c_div t 10 = sgn t * (\<bar>t\<bar> div 10)"
  by (simp add: c_div_def)

lemma abs_c_div_10: "nat \<bar>c_div t 10\<bar> = nat \<bar>t\<bar> div 10"
  by (simp add: c_div_10 abs_mult abs_sgn_eq nat_div_distrib)

lemma count_loop_digits:
  "t \<noteq> 0 \<Longrightarrow> count_loop t len = len + int (length (digits (nat \<bar>t\<bar>)))"
proof (induction t len rule: count_loop.induct)
  case (1 tempval len)
  show ?case
  proof (cases "c_div tempval 10 = 0")
    case True
    then have "nat \<bar>tempval\<bar> div 10 = 0" using abs_c_div_10 [of tempval] by simp
    then have small: "nat \<bar>tempval\<bar> < 10" by simp
    have "count_loop tempval len = count_loop 0 (len + 1)"
      using 1(2) True by (subst count_loop.simps) simp
    also have "\<dots> = len + 1" by (subst count_loop.simps) simp
    finally have cnt: "count_loop tempval len = len + 1" .
    have "digits (nat \<bar>tempval\<bar>) = [digit_char (nat \<bar>tempval\<bar>)]"
      using small by (subst digits.simps) simp
    with cnt show ?thesis by simp
  next
    case False
    then have big: "\<not> nat \<bar>tempval\<bar> < 10" using abs_c_div_10 [of tempval] by auto
    have "count_loop tempval len = count_loop (c_div tempval 10) (len + 1)"
      using 1(2) by (subst count_loop.simps) simp
    also have "\<dots> = len + 1 + int (length (digits (nat \<bar>c_div tempval 10\<bar>)))"
      using 1(1) [OF 1(2) False] .
    finally have cnt: "count_loop tempval len
        = len + 1 + int (length (digits (nat \<bar>c_div tempval 10\<bar>)))" .
    have "digits (nat \<bar>tempval\<bar>)
        = digits (nat \<bar>tempval\<bar> div 10) @ [digit_char (nat \<bar>tempval\<bar> mod 10)]"
      using big by (subst digits.simps) simp
    with cnt show ?thesis by (simp add: abs_c_div_10)
  qed
qed

lemma abs_wrap_neg:
  assumes "LONG_MIN \<le> val" and "val < 0"
  shows "\<bar>wrap_long (- val)\<bar> = - val"
proof (cases "val = LONG_MIN")
  case True
  then show ?thesis by (simp add: wrap_long_def LONG_MIN_def)
next
  case False
  with assms have "0 < - val" "- val < 2 ^ 63" by (simp_all add: LONG_MIN_def)
  then have "wrap_long (- val) = - val" by (simp add: wrap_long_def)
  with assms show ?thesis by simp
qed

lemma value_len_sprintf:
  assumes "LONG_MIN \<le> val" and "val \<le> LONG_MAX"
  shows "value_len val = int (length (show_long val)) + 1"
proof -
  consider "val = 0" | "val < 0" | "0 < val" by linarith
  then show ?thesis
  proof cases
    case 1
    have "count_loop 0 1 = 1" by (subst count_loop.simps) simp
    moreover have "digits 0 = [digit_char 0]" by (subst digits.simps) simp
    ultimately show ?thesis using 1 by (simp add: value_len_def show_long_def)
  next
    case 2
    have a: "\<bar>wrap_long (- val)\<bar> = - val" by (rule abs_wrap_neg [OF assms(1) 2])
    then have nz: "wrap_long (- val) \<noteq> 0" using 2 by auto
    show ?thesis using 2 count_loop_digits [OF nz, of 1] by (simp add: value_len_def show_long_def a)
  next
    case 3
    then have nz: "val \<noteq> 0" by simp
    show ?thesis using 3 count_loop_digits [OF nz, of 0] by (simp add: value_len_def show_long_def)
  qed
qed

lemma format_value_overflows:
  assumes "LONG_MIN \<le> val" and "val \<le> LONG_MAX"
  shows "format_value val = Inl Heap_Overflow"
  using value_len_sprintf [OF assms] by (simp add: format_value_def sprintf_ld_c_def Let_def)

lemma set_int_loop_overflows:
  assumes "LONG_MIN \<le> val" and "val \<le> LONG_MAX" and "int (length n) + 1 \<le> INT_MAX"
  shows "set_int_loop n val ls = Inl Heap_Overflow"
  using assms by (induction ls) (auto simp: format_value_overflows copy_string_def)

lemma store_set_int_overflows:
  assumes "LONG_MIN \<le> val" and "val \<le> LONG_MAX" and "int (length n) + 1 \<le> INT_MAX"
  shows "store_set_int (Some n) val vs = Inl Heap_Overflow"
  by (simp add: store_set_int_def set_int_loop_overflows [OF assms])

lemma store_set_int_never_succeeds:
  "store_set_int var val vs \<noteq> Inr (0, vs')"
proof -
  have fv: "format_value val \<noteq> Inr (Some t)" for t
    by (auto simp: format_value_def sprintf_ld_c_def Let_def split: if_splits)
  have "set_int_loop n val ls \<noteq> Inr (0, ls')" for n ls ls'
  proof (induction ls arbitrary: ls')
    case Nil
    show ?case using fv by (auto split: sum.splits option.splits)
  next
    case (Cons x ls)
    obtain m v where x: "x = (m, v)" by (cases x)
    show ?case using fv Cons unfolding x by (auto split: sum.splits option.splits prod.splits)
  qed
  then show ?thesis
    by (auto simp: store_set_int_def simp del: set_int_loop.simps
        split: option.splits sum.splits prod.splits)
qed

lemma store_set_string_then_get:
  assumes "int (length n) + 1 \<le> INT_MAX" and "int (length s) + 1 \<le> INT_MAX"
  shows "\<exists>vs'. store_set_string (Some n) (Some (Caller s)) vs = Inr (0, vs') \<and>
           store_get_string n vs' = Some s"
proof -
  obtain ls where ls: "ls = (case vs of None \<Rightarrow> [] | Some ls \<Rightarrow> ls)" by simp
  from set_string_loop_caller [OF assms, of ls ls] obtain ls' where
    "set_string_loop n (Some (Caller s)) ls ls = Inr ls'" "get_string_loop n ls' = Some s" by blast
  then show ?thesis by (simp add: store_set_string_def store_get_string_def ls)
qed

lemma store_set_string_lent_same:
  assumes "store_get_string n vs = Some old"
  shows "store_set_string (Some n) (Some (Lent n)) vs = Inl Use_After_Free"
proof -
  from assms obtain ls where "vs = Some ls" "get_string_loop n ls = Some old"
    by (cases vs) (auto simp: store_get_string_def)
  then show ?thesis
    by (simp add: store_set_string_def set_string_loop_lent_same [of n ls old ls])
qed

text \<open>
  Claim C4.  \<^verbatim>\<open>store_set_int\<close> reserves \<^verbatim>\<open>len\<close> bytes for the text, one for each digit,
  one for a minus sign and one for the terminator, and \<^verbatim>\<open>sprintf\<close> with the format
  \<^verbatim>\<open>"%ld%c"\<close> then writes \<^verbatim>\<open>len + 1\<close> bytes into them: the call \<^verbatim>\<open>store_set_int("x", -42)\<close>
  writes behind the end of the block, on the empty store and on a store that has the
  variable.  \<^verbatim>\<open>store_set_string\<close> frees the old value before it reads \<^verbatim>\<open>val\<close>: called with
  the pointer \<^verbatim>\<open>store_get_string\<close> has returned for the same variable, it reads the
  freed block.
\<close>

theorem set_int_writes_past_block:
  "store_set_int (Some ''x'') (- 42) None = Inl Heap_Overflow \<and>
   store_set_int (Some ''x'') (- 42) (holding ''7'') = Inl Heap_Overflow \<and>
   store_get_string ''x'' (holding ''7'') = Some ''7'' \<and>
   store_set_string (Some ''x'') (Some (Lent ''x'')) (holding ''7'') = Inl Use_After_Free"
proof -
  have r: "LONG_MIN \<le> - 42" "- 42 \<le> LONG_MAX" "int (length ''x'') + 1 \<le> INT_MAX"
    by (simp_all add: LONG_MIN_def LONG_MAX_def INT_MAX_def)
  have g: "store_get_string ''x'' (holding ''7'') = Some ''7''"
    by (simp add: store_get_string_def holding_def)
  show ?thesis
    using store_set_int_overflows [OF r] store_set_string_lent_same [OF g] g by simp
qed

lemma strtol_end:
  "(v \<noteq> [] \<and> snd (strtol v) = []) = int_text v"
proof -
  define r where "r = dropWhile isspace v"
  define d where "d = (case r of [] \<Rightarrow> [] | c # t \<Rightarrow> if c = CHR ''-'' \<or> c = CHR ''+'' then t else r)"
  have d': "(if r \<noteq> [] \<and> (hd r = CHR ''-'' \<or> hd r = CHR ''+'') then tl r else r) = d"
    unfolding d_def by (cases r) auto
  have split: "(d \<noteq> [] \<and> list_all isdigit d) = (takeWhile isdigit d \<noteq> [] \<and> dropWhile isdigit d = [])"
    by (cases d) (auto simp: list_all_iff dropWhile_eq_Nil_conv)
  have st: "strtol v = (if takeWhile isdigit d = [] then (0, v)
      else (clamp_long ((if (case r of [] \<Rightarrow> False | c # t \<Rightarrow> c = CHR ''-'') then - 1 else 1) *
                 foldl (\<lambda>acc c. 10 * acc + digit_val c) 0 (takeWhile isdigit d)),
            dropWhile isdigit d))"
    unfolding strtol_def Let_def r_def d_def by simp
  have nonempty: "takeWhile isdigit d \<noteq> [] \<Longrightarrow> v \<noteq> []"
    unfolding d_def r_def by (cases v) auto
  have "(v \<noteq> [] \<and> snd (strtol v) = []) = (takeWhile isdigit d \<noteq> [] \<and> dropWhile isdigit d = [])"
    unfolding st using nonempty by auto
  also have "\<dots> = int_text v"
    unfolding int_text_def Let_def r_def [symmetric] d' split ..
  finally show ?thesis .
qed

text \<open>
  Claim C3, as amended.  For a variable whose value is the given string,
  \<^verbatim>\<open>store_get_int\<close> succeeds exactly when the value is an integer text as \<^verbatim>\<open>strtol\<close>
  reads it: optional white space, at most one sign (plus or minus), one or more digits,
  nothing behind them.  So it succeeds on \<^verbatim>\<open>"0"\<close>, \<^verbatim>\<open>"-1"\<close>, \<^verbatim>\<open>"2147483647"\<close>, and also
  on \<^verbatim>\<open>" 1"\<close> and \<^verbatim>\<open>"+1"\<close> (both yielding 1), and fails on the empty string, \<^verbatim>\<open>"1 "\<close>,
  \<^verbatim>\<open>"1a"\<close> and \<^verbatim>\<open>"0x10"\<close>.
\<close>

theorem get_int_accepts_strtol_prefixes:
  "(store_get_string n vs = Some v \<longrightarrow> (store_get_int n vs \<noteq> None) = int_text v) \<and>
   (store_get_string n vs = Some ''0'' \<longrightarrow> store_get_int n vs = Some 0) \<and>
   (store_get_string n vs = Some ''-1'' \<longrightarrow> store_get_int n vs = Some (- 1)) \<and>
   (store_get_string n vs = Some ''2147483647'' \<longrightarrow> store_get_int n vs = Some 2147483647) \<and>
   (store_get_string n vs = Some [] \<longrightarrow> store_get_int n vs = None) \<and>
   (store_get_string n vs = Some '' 1'' \<longrightarrow> store_get_int n vs = Some 1) \<and>
   (store_get_string n vs = Some ''1 '' \<longrightarrow> store_get_int n vs = None) \<and>
   (store_get_string n vs = Some ''1a'' \<longrightarrow> store_get_int n vs = None) \<and>
   (store_get_string n vs = Some ''0x10'' \<longrightarrow> store_get_int n vs = None) \<and>
   (store_get_string n vs = Some ''+1'' \<longrightarrow> store_get_int n vs = Some 1)"
proof -
  have general: "(store_get_int n vs \<noteq> None) = int_text v" if "store_get_string n vs = Some v"
    unfolding store_get_int_of_stored [OF that] strtol_end [symmetric]
    by (cases "strtol v") auto
  have examples:
    "strtol ''0'' = (0, [])" "strtol ''-1'' = (- 1, [])"
    "strtol ''2147483647'' = (2147483647, [])" "strtol '' 1'' = (1, [])"
    "strtol ''1 '' = (1, '' '')" "strtol ''1a'' = (1, ''a'')"
    "strtol ''0x10'' = (0, ''x10'')" "strtol ''+1'' = (1, [])"
    by (simp_all add: strtol_def isspace_def isdigit_def digit_val_def clamp_long_def
        LONG_MAX_def LONG_MIN_def)
  show ?thesis
    using general by (auto simp: store_get_int_of_stored examples)
qed

text \<open>
  The variable \<^verbatim>\<open>x\<close> holding each of the strings of the claim in turn.
\<close>

theorem get_int_accepts_strtol_prefixes_witness:
  "store_get_string ''x'' (holding ''0'') = Some ''0'' \<and>
   store_get_int ''x'' (holding ''0'') = Some 0 \<and>
   store_get_string ''x'' (holding ''-1'') = Some ''-1'' \<and>
   store_get_int ''x'' (holding ''-1'') = Some (- 1) \<and>
   store_get_string ''x'' (holding ''2147483647'') = Some ''2147483647'' \<and>
   store_get_int ''x'' (holding ''2147483647'') = Some 2147483647 \<and>
   store_get_string ''x'' (holding []) = Some [] \<and>
   store_get_int ''x'' (holding []) = None \<and>
   store_get_string ''x'' (holding '' 1'') = Some '' 1'' \<and>
   store_get_int ''x'' (holding '' 1'') = Some 1 \<and>
   int_text '' 1'' \<and>
   store_get_string ''x'' (holding ''1 '') = Some ''1 '' \<and>
   store_get_int ''x'' (holding ''1 '') = None \<and>
   store_get_string ''x'' (holding ''1a'') = Some ''1a'' \<and>
   store_get_int ''x'' (holding ''1a'') = None \<and>
   store_get_string ''x'' (holding ''0x10'') = Some ''0x10'' \<and>
   store_get_int ''x'' (holding ''0x10'') = None \<and>
   store_get_string ''x'' (holding ''+1'') = Some ''+1'' \<and>
   store_get_int ''x'' (holding ''+1'') = Some 1"
proof -
  have h: "store_get_string ''x'' (holding v) = Some v" for v
    by (simp add: store_get_string_def holding_def)
  note t = get_int_accepts_strtol_prefixes [where n = "''x''"]
  have "store_get_int ''x'' (holding ''0'') = Some 0"
    using t [of "holding ''0''"] h by blast
  moreover have "store_get_int ''x'' (holding ''-1'') = Some (- 1)"
    using t [of "holding ''-1''"] h by blast
  moreover have "store_get_int ''x'' (holding ''2147483647'') = Some 2147483647"
    using t [of "holding ''2147483647''"] h by blast
  moreover have "store_get_int ''x'' (holding []) = None"
    using t [of "holding []"] h by blast
  moreover have "store_get_int ''x'' (holding '' 1'') = Some 1"
    using t [of "holding '' 1''"] h by blast
  moreover have "int_text '' 1''"
    using t [of "holding '' 1''" "'' 1''"] h calculation(5) by auto
  moreover have "store_get_int ''x'' (holding ''1 '') = None"
    using t [of "holding ''1 ''"] h by blast
  moreover have "store_get_int ''x'' (holding ''1a'') = None"
    using t [of "holding ''1a''"] h by blast
  moreover have "store_get_int ''x'' (holding ''0x10'') = None"
    using t [of "holding ''0x10''"] h by blast
  moreover have "store_get_int ''x'' (holding ''+1'') = Some 1"
    using t [of "holding ''+1''"] h by blast
  ultimately show ?thesis using h by simp
qed

text \<open>
  Claim C3 as stated fails: \<^verbatim>\<open>store_set_string\<close> gives \<^verbatim>\<open>x\<close> the value \<^verbatim>\<open>" 1"\<close>, and
  \<^verbatim>\<open>store_get_int\<close> then succeeds and yields 1.
\<close>

theorem get_int_leading_space_counterexample:
  "store_set_string (Some ''x'') (Some (Caller '' 1'')) None = Inr (0, holding '' 1'') \<and>
   store_get_int ''x'' (holding '' 1'') = Some 1"
  by (simp add: store_get_int_def store_set_string_def copy_string_def pointee_def INT_MAX_def
      holding_def strtol_def isspace_def isdigit_def digit_val_def clamp_long_def LONG_MAX_def
      LONG_MIN_def)

section \<open>Properties of the jobs module\<close>

lemma read_output_capture_keeps:
  "read_output_capture bs j = Inr (rc, j') \<Longrightarrow> job_id j' = job_id j \<and> pgid j' = pgid j"
  by (auto simp: read_output_capture_def Let_def split: if_splits option.splits sum.splits)

lemma io_loop_keeps:
  "io_loop rd js = Inr js' \<Longrightarrow> map job_id js' = map job_id js \<and> map pgid js' = map pgid js"
proof (induction js arbitrary: js')
  case Nil
  then show ?case by simp
next
  case (Cons j js)
  from Cons.prems obtain rc j1 js1 where r: "read_output_capture (rd (readfd j)) j = Inr (rc, j1)"
    and l: "io_loop rd js = Inr js1" and eq: "js' = j1 # js1"
    by (auto split: sum.splits)
  from read_output_capture_keeps [OF r] Cons.IH [OF l] eq show ?case by simp
qed

lemma io_loop_append:
  "io_loop rd xs = Inr xs' \<Longrightarrow> io_loop rd ys = Inr ys' \<Longrightarrow> io_loop rd (xs @ ys) = Inr (xs' @ ys')"
proof (induction xs arbitrary: xs')
  case Nil
  then show ?case by simp
next
  case (Cons j js)
  from Cons.prems(1) obtain rc j1 js1 where r: "read_output_capture (rd (readfd j)) j = Inr (rc, j1)"
    and l: "io_loop rd js = Inr js1" and eq: "xs' = j1 # js1"
    by (auto split: sum.splits)
  from Cons.IH [OF l Cons.prems(2)] r eq show ?case by simp
qed

lemma find_job_skip:
  "(\<And>j. j \<in> set pre \<Longrightarrow> job_id j \<noteq> jobid) \<Longrightarrow> job_id job = jobid
   \<Longrightarrow> find_job jobid (pre @ job # post) = Some job"
  by (induction pre) simp_all

lemma change_loop_skip:
  "(\<And>j. j \<in> set pre \<Longrightarrow> pgid j \<noteq> pid) \<Longrightarrow> pgid job = pid
   \<Longrightarrow> change_loop pid st es (pre @ job # post)
       = (0, pre @ job\<lparr>status := st, exit_status := es\<rparr> # post)"
  by (induction pre) simp_all

lemma strncpy_with_NUL:
  assumes "NUL \<in> set B"
  shows "\<exists>k. 0 < k \<and> strncpy (B @ [NUL]) (length B) = takeWhile (\<lambda>c. c \<noteq> NUL) B @ replicate k NUL"
proof -
  let ?p = "takeWhile (\<lambda>c. c \<noteq> NUL) B"
  from assms have tw: "takeWhile (\<lambda>c. c \<noteq> NUL) (B @ [NUL]) = ?p"
    by (simp add: takeWhile_append1)
  from assms have "dropWhile (\<lambda>c. c \<noteq> NUL) B \<noteq> []" by (auto simp: dropWhile_eq_Nil_conv)
  then have "length ?p + 0 < length ?p + length (dropWhile (\<lambda>c. c \<noteq> NUL) B)" by simp
  then have short: "length ?p < length B"
    by (simp only: length_append [symmetric] takeWhile_dropWhile_id add_0_right)
  then have "strncpy (B @ [NUL]) (length B) = ?p @ replicate (length B - length ?p) NUL"
    by (simp add: strncpy_def tw Let_def)
  with short show ?thesis by (intro exI [of _ "length B - length ?p"]) simp
qed

lemma c_string_padded:
  assumes "0 < k" and "NUL \<notin> set p"
  shows "c_string (p @ replicate k NUL) = Inr p"
proof -
  from assms(1) obtain k' where k: "k = Suc k'" by (cases k) auto
  have "takeWhile (\<lambda>c. c \<noteq> NUL) (p @ replicate k NUL) = p"
    using assms(2) unfolding k by (induction p) auto
  moreover have "NUL \<in> set (p @ replicate k NUL)" using assms(1) by simp
  ultimately show ?thesis by (simp add: c_string_def)
qed

text \<open>
  Claim C9, as amended.  Take a job with a capture pipe and no output so far, anywhere
  in a table for whose other jobs the reads of the I/O handler go through.  When one
  run of the I/O handler reads the bytes \<open>B\<close> from the pipe of the job, with a NUL among
  them, and the leader then terminates with any status the child handler classifies,
  \<^verbatim>\<open>jobs_wait\<close> returns that status and \<^verbatim>\<open>jobs_get_output\<close> returns a terminated string:
  the bytes of \<open>B\<close> in front of its first NUL.  Nothing is stated here for bytes
  without a NUL among them.
\<close>

theorem capture_up_to_first_NUL:
  assumes B: "NUL \<in> set B"
    and job: "readfd job \<noteq> - 1" "job_output job = None" "0 < pgid job"
    and rd: "rd (readfd job) = B"
    and pre: "io_loop rd pre = Inr pre'" and post: "io_loop rd post = Inr post'"
    and first: "\<forall>j \<in> set pre. job_id j \<noteq> job_id job \<and> pgid j \<noteq> pgid job"
    and st: "WIFSTOPPED st \<or> WIFSIGNALED st \<or> WIFEXITED st"
  shows "\<exists>blk s.
    io_handler rd (Some (pre @ job # post))
       = Inr (Some (pre' @ job\<lparr>job_output := Some blk\<rparr> # post')) \<and>
    child_handler (pgid job) st (Some (pre' @ job\<lparr>job_output := Some blk\<rparr> # post'))
       = Some (pre' @ job\<lparr>job_output := Some blk, status := s, exit_status := st\<rparr> # post') \<and>
    terminated s \<and>
    jobs_wait (job_id job)
       (Some (pre' @ job\<lparr>job_output := Some blk, status := s, exit_status := st\<rparr> # post'))
       = Some st \<and>
    jobs_get_output (job_id job)
       (Some (pre' @ job\<lparr>job_output := Some blk, status := s, exit_status := st\<rparr> # post'))
       = Some blk \<and>
    c_string blk = Inr (takeWhile (\<lambda>c. c \<noteq> NUL) B)"
proof -
  let ?p = "takeWhile (\<lambda>c. c \<noteq> NUL) B"
  from strncpy_with_NUL [OF B] obtain k where k: "0 < k"
    and cp: "strncpy (B @ [NUL]) (length B) = ?p @ replicate k NUL" by blast
  define blk where "blk = ?p @ replicate k NUL"
  have "NUL \<notin> set ?p" by (auto dest: set_takeWhileD)
  then have str: "c_string blk = Inr ?p" unfolding blk_def by (rule c_string_padded [OF k])
  from B have ne: "B \<noteq> []" by auto
  let ?read = "job\<lparr>job_output := Some blk\<rparr>"
  have r: "read_output_capture (rd (readfd job)) job = Inr (0, ?read)"
    using ne job rd cp by (simp add: read_output_capture_def Let_def blk_def)
  then have "io_loop rd (job # post) = Inr (?read # post')" using post by simp
  from io_loop_append [OF pre this]
  have io: "io_loop rd (pre @ job # post) = Inr (pre' @ ?read # post')" .
  from io_loop_keeps [OF pre] have ids: "job_id ` set pre' = job_id ` set pre"
    and pgs: "pgid ` set pre' = pgid ` set pre" by (simp_all flip: set_map)
  have first': "job_id j \<noteq> job_id job" "pgid j \<noteq> pgid job" if "j \<in> set pre'" for j
  proof -
    from that have "job_id j \<in> job_id ` set pre" "pgid j \<in> pgid ` set pre"
      using ids pgs by blast+
    with first show "job_id j \<noteq> job_id job" "pgid j \<noteq> pgid job" by auto
  qed
  define s where "s = (if WEXITSTATUS st = EXIT_SUCCESS then ''completed''
            else if WEXITSTATUS st = SIGKILL then ''canceled'' else ''aborted'')"
  have s: "terminated s" by (simp add: s_def terminated_def)
  have ch: "child_handler (pgid job) st jt = snd (change_job_status (pgid job) s st jt)" for jt
    using job(3) st by (simp add: child_handler_def s_def)
  let ?fin = "job\<lparr>job_output := Some blk, status := s, exit_status := st\<rparr>"
  have cl: "change_loop (pgid job) s st (pre' @ ?read # post') = (0, pre' @ ?fin # post')"
    using change_loop_skip [of pre' "pgid job" ?read s st post'] first'(2) by simp
  have fj: "find_job (job_id job) (pre' @ ?fin # post') = Some ?fin"
    using first'(1) by (intro find_job_skip) simp_all
  have w: "wait_loop ?fin = Some st"
    using s by (subst wait_loop.simps) simp
  have "io_handler rd (Some (pre @ job # post)) = Inr (Some (pre' @ ?read # post'))"
    using io by (simp add: io_handler_def)
  moreover have "child_handler (pgid job) st (Some (pre' @ ?read # post'))
      = Some (pre' @ ?fin # post')"
    using cl by (simp add: ch change_job_status_def)
  moreover have "jobs_wait (job_id job) (Some (pre' @ ?fin # post')) = Some st"
    using fj w by (simp add: jobs_wait_def)
  moreover have "jobs_get_output (job_id job) (Some (pre' @ ?fin # post')) = Some blk"
    using fj by (simp add: jobs_get_output_def)
  ultimately show ?thesis using s str
    by (intro exI [of _ blk] exI [of _ s]) simp
qed

text \<open>
  With a second job in the table: the pipeline writes \<^verbatim>\<open>a\<close>, NUL, \<^verbatim>\<open>b\<close> and exits with
  success; the captured string is \<^verbatim>\<open>a\<close>.
\<close>

theorem capture_up_to_first_NUL_witness:
  "NUL \<in> set (bytes_a_NUL_b 5) \<and> readfd capture_job \<noteq> - 1 \<and>
   job_output capture_job = None \<and> 0 < pgid capture_job \<and>
   bytes_a_NUL_b (readfd capture_job) = bytes_a_NUL_b 5 \<and>
   io_loop bytes_a_NUL_b [other_job] = Inr [other_job] \<and> io_loop bytes_a_NUL_b [] = Inr [] \<and>
   (WIFSTOPPED 0 \<or> WIFSIGNALED 0 \<or> WIFEXITED 0) \<and>
   (\<exists>blk s.
      io_handler bytes_a_NUL_b (Some [other_job, capture_job])
        = Inr (Some [other_job, capture_job\<lparr>job_output := Some blk\<rparr>]) \<and>
      terminated s \<and>
      jobs_wait (job_id capture_job)
        (Some [other_job, capture_job\<lparr>job_output := Some blk, status := s, exit_status := 0\<rparr>])
        = Some 0 \<and>
      jobs_get_output (job_id capture_job)
        (Some [other_job, capture_job\<lparr>job_output := Some blk, status := s, exit_status := 0\<rparr>])
        = Some blk \<and>
      c_string blk = Inr ''a'')"
proof -
  have h1: "NUL \<in> set (bytes_a_NUL_b 5)" by (simp add: bytes_a_NUL_b_def NUL_def)
  have h2: "readfd capture_job \<noteq> - 1" by (simp add: capture_job_def)
  have h3: "job_output capture_job = None" by (simp add: capture_job_def)
  have h4: "0 < pgid capture_job" by (simp add: capture_job_def)
  have h5: "bytes_a_NUL_b (readfd capture_job) = bytes_a_NUL_b 5"
    by (simp add: bytes_a_NUL_b_def)
  have h6: "io_loop bytes_a_NUL_b [other_job] = Inr [other_job]"
    by (simp add: other_job_def running_job_def read_output_capture_def)
  have h7: "io_loop bytes_a_NUL_b [] = Inr []" by simp
  have h8: "\<forall>j \<in> set [other_job]. job_id j \<noteq> job_id capture_job \<and> pgid j \<noteq> pgid capture_job"
    by (simp add: capture_job_def other_job_def running_job_def)
  have h9: "WIFSTOPPED 0 \<or> WIFSIGNALED 0 \<or> WIFEXITED 0"
    by (simp add: WIFEXITED_def WTERMSIG_def)
  have p: "takeWhile (\<lambda>c. c \<noteq> NUL) (bytes_a_NUL_b 5) = ''a''"
    by (simp add: bytes_a_NUL_b_def NUL_def)
  note inst = capture_up_to_first_NUL [OF h1 h2 h3 h4 h5 h6 h7 h8 h9]
  from inst obtain blk s where
    "io_handler bytes_a_NUL_b (Some ([other_job] @ capture_job # []))
        = Inr (Some ([other_job] @ capture_job\<lparr>job_output := Some blk\<rparr> # []))"
    "terminated s"
    "jobs_wait (job_id capture_job)
        (Some ([other_job] @ capture_job\<lparr>job_output := Some blk, status := s, exit_status := 0\<rparr> # []))
        = Some 0"
    "jobs_get_output (job_id capture_job)
        (Some ([other_job] @ capture_job\<lparr>job_output := Some blk, status := s, exit_status := 0\<rparr> # []))
        = Some blk"
    "c_string blk = Inr (takeWhile (\<lambda>c. c \<noteq> NUL) (bytes_a_NUL_b 5))"
    by (elim exE conjE)
  then have "\<exists>blk s.
      io_handler bytes_a_NUL_b (Some [other_job, capture_job])
        = Inr (Some [other_job, capture_job\<lparr>job_output := Some blk\<rparr>]) \<and>
      terminated s \<and>
      jobs_wait (job_id capture_job)
        (Some [other_job, capture_job\<lparr>job_output := Some blk, status := s, exit_status := 0\<rparr>])
        = Some 0 \<and>
      jobs_get_output (job_id capture_job)
        (Some [other_job, capture_job\<lparr>job_output := Some blk, status := s, exit_status := 0\<rparr>])
        = Some blk \<and>
      c_string blk = Inr ''a''"
    unfolding p by (intro exI [of _ blk] exI [of _ s]) simp
  with h1 h2 h3 h4 h5 h6 h7 h9 show ?thesis by (intro conjI)
qed

lemma drain_without_NUL_leaves_no_terminator:
  assumes "B \<noteq> []" and "NUL \<notin> set B" and "readfd job \<noteq> - 1" and "job_output job = None"
    and "B' \<noteq> []"
  shows "read_output_capture B job = Inr (0, job\<lparr>job_output := Some B\<rparr>)"
    and "c_string B = Inl Over_Read"
    and "read_output_capture B' (job\<lparr>job_output := Some B\<rparr>) = Inl Over_Read"
proof -
  from assms(2) have "takeWhile (\<lambda>c. c \<noteq> NUL) (B @ [NUL]) = B" by (induction B) auto
  then have "strncpy (B @ [NUL]) (length B) = B" by (simp add: strncpy_def)
  with assms show "read_output_capture B job = Inr (0, job\<lparr>job_output := Some B\<rparr>)"
    by (simp add: read_output_capture_def Let_def)
  from assms(2) show "c_string B = Inl Over_Read" by (simp add: c_string_def)
  from assms(2,3,5) show "read_output_capture B' (job\<lparr>job_output := Some B\<rparr>) = Inl Over_Read"
    by (simp add: read_output_capture_def Let_def strlen_def)
qed

text \<open>
  Claim C9 as stated fails: the pipe delivers the three bytes \<^verbatim>\<open>a\<close>, NUL, \<^verbatim>\<open>b\<close> to one
  run of the I/O handler, the leader exits with success, \<^verbatim>\<open>jobs_wait\<close> returns, and the
  block \<^verbatim>\<open>jobs_get_output\<close> returns holds \<^verbatim>\<open>a\<close>, NUL, NUL.
\<close>

theorem capture_drops_after_NUL:
  "io_handler bytes_a_NUL_b (Some [capture_job])
     = Inr (Some [capture_job\<lparr>job_output := Some [CHR ''a'', CHR 0x00, CHR 0x00]\<rparr>]) \<and>
   child_handler 100 0 (Some [capture_job\<lparr>job_output := Some [CHR ''a'', CHR 0x00, CHR 0x00]\<rparr>])
     = Some [capture_job\<lparr>job_output := Some [CHR ''a'', CHR 0x00, CHR 0x00],
               status := ''completed'', exit_status := 0\<rparr>] \<and>
   jobs_wait 0 (Some [capture_job\<lparr>job_output := Some [CHR ''a'', CHR 0x00, CHR 0x00],
               status := ''completed'', exit_status := 0\<rparr>]) = Some 0 \<and>
   jobs_get_output 0 (Some [capture_job\<lparr>job_output := Some [CHR ''a'', CHR 0x00, CHR 0x00],
               status := ''completed'', exit_status := 0\<rparr>])
     = Some [CHR ''a'', CHR 0x00, CHR 0x00] \<and>
   [CHR ''a'', CHR 0x00, CHR 0x00] \<noteq> bytes_a_NUL_b 5"
proof -
  have w: "wait_loop (capture_job\<lparr>job_output := Some [CHR ''a'', CHR 0x00, CHR 0x00],
               status := ''completed'', exit_status := 0\<rparr>) = Some 0"
    by (subst wait_loop.simps) (simp add: terminated_def)
  show ?thesis
    by (simp add: io_handler_def read_output_capture_def strncpy_def NUL_def capture_job_def
      bytes_a_NUL_b_def jobs_get_output_def jobs_wait_def w [unfolded capture_job_def, simplified]
      child_handler_def change_job_status_def WIFEXITED_def WTERMSIG_def WEXITSTATUS_def
      EXIT_SUCCESS_def)
qed

text \<open>
  Claim C1.  \<^verbatim>\<open>child_handler\<close> classifies by \<^verbatim>\<open>WEXITSTATUS\<close> alone.  For the leader of a
  running job, the wait status 9 (killed by \<^verbatim>\<open>SIGKILL\<close>) and the wait status 11 (killed
  by \<^verbatim>\<open>SIGSEGV\<close>) both give \<^verbatim>\<open>"completed"\<close>, and the wait status of a normal exit with
  code 9 gives \<^verbatim>\<open>"canceled"\<close>; the raw status is stored in \<^verbatim>\<open>exit_status\<close> each time.
\<close>

theorem child_handler_sigkill_completed:
  "child_handler 100 9 (Some [running_job])
     = Some [running_job\<lparr>status := ''completed'', exit_status := 9\<rparr>] \<and>
   child_handler 100 11 (Some [running_job])
     = Some [running_job\<lparr>status := ''completed'', exit_status := 11\<rparr>] \<and>
   child_handler 100 0x900 (Some [running_job])
     = Some [running_job\<lparr>status := ''canceled'', exit_status := 0x900\<rparr>]"
  by (simp add: child_handler_def change_job_status_def running_job_def WIFSTOPPED_def
      WIFSIGNALED_def WIFEXITED_def WTERMSIG_def WEXITSTATUS_def EXIT_SUCCESS_def SIGKILL_def)

text \<open>
  Claim C2.  On a running job whose process group can still be signalled,
  \<^verbatim>\<open>jobs_cancel\<close> returns 0, and called again on the table it leaves, it returns 0
  again: the table keeps no trace of the first call.
\<close>

theorem second_cancel_succeeds:
  "(case jobs_cancel obliging_os 0 (Some [running_job]) of
      Inl f \<Rightarrow> False
    | Inr (rc, jt) \<Rightarrow> rc = 0 \<and> jobs_cancel obliging_os 0 jt = Inr (0, jt))"
  by (simp add: jobs_cancel_def jobs_poll_def running_job_def obliging_os_def terminated_def)

text \<open>
  Claim C8.  With one running job in the table, \<^verbatim>\<open>jobs_fini\<close> cancels it and, without
  waiting, asks \<^verbatim>\<open>jobs_expunge\<close> to remove it, which refuses a job that has not
  terminated: \<^verbatim>\<open>jobs_fini\<close> returns -1 and the job is still in the table.  With one
  completed job, \<^verbatim>\<open>jobs_expunge\<close> frees the node and the loop then reads its \<^verbatim>\<open>next\<close>
  field.
\<close>

theorem fini_does_not_wait:
  "jobs_fini obliging_os (Some [running_job]) = Inr (-1, Some [running_job]) \<and>
   jobs_fini obliging_os (Some [running_job\<lparr>status := ''completed'', exit_status := 0\<rparr>])
     = Inl Use_After_Free"
  by (simp add: jobs_fini_def jobs_cancel_def jobs_expunge_def jobs_poll_def running_job_def
      obliging_os_def terminated_def)


lemma jobs_cancel_table_unchanged:
  "jobs_cancel sys jobid jt = Inr (rc, jt') \<Longrightarrow> jt' = jt"
  by (auto simp: jobs_cancel_def split: if_splits option.splits)

lemma jobs_cancel_again:
  "jobs_cancel sys jobid jt = Inr (rc, jt') \<Longrightarrow> jobs_cancel sys jobid jt' = Inr (rc, jt')"
  using jobs_cancel_table_unchanged by fastforce

lemma jobs_fini_nonempty_not_ok:
  "jobs_fini sys (Some (j # js)) \<noteq> Inr (0, jt')"
  by (auto simp: jobs_fini_def split: if_splits sum.splits prod.splits)

lemma signal_death_has_exit_byte_0:
  "0 \<le> s \<Longrightarrow> s < 256 \<Longrightarrow> WEXITSTATUS s = EXIT_SUCCESS"
proof -
  assume "0 \<le> s" and "s < 256"
  then have "drop_bit 8 s = 0" by (simp add: drop_bit_eq_div)
  then show ?thesis by (simp add: WEXITSTATUS_def EXIT_SUCCESS_def)
qed

end
